theory Spec2Isabelle
  imports Main "HOL-Library.AList"
begin

section \<open>JavaScript values and string primitives\<close>

text \<open>
  The plugin is JavaScript. Strings are modelled as \<^typ>\<open>string\<close> (code units 0..255),
  integral numbers as \<^typ>\<open>int\<close>, and a number that may be \<open>NaN\<close> as \<^typ>\<open>int option\<close>
  with \<open>None\<close> for \<open>NaN\<close>. Exceptions are values of the type \<open>error\<close>; a function that
  can throw returns \<open>error + 'a\<close>.
\<close>

type_synonym jsnum = "int option"

datatype error =
    Error string
  | TypeError string
  | URIError string
  | Thrown string

text \<open>\<open>s.split(c)\<close> for a one-character separator: always at least one piece.\<close>

fun split_on :: "char \<Rightarrow> string \<Rightarrow> string list" where
  "split_on c [] = [[]]"
| "split_on c (x # xs) =
     (if x = c then [] # split_on c xs
      else (case split_on c xs of
              [] \<Rightarrow> [[x]]
            | w # ws \<Rightarrow> (x # w) # ws))"

text \<open>\<open>a.join(sep)\<close> on an array of strings.\<close>

fun join :: "string \<Rightarrow> string list \<Rightarrow> string" where
  "join sep [] = []"
| "join sep [x] = x"
| "join sep (x # y # ys) = x @ sep @ join sep (y # ys)"

text \<open>\<open>s.charAt(0)\<close> and \<open>s.substring(1)\<close>.\<close>

definition charAt0 :: "string \<Rightarrow> string" where
  "charAt0 s = take 1 s"

definition substring1 :: "string \<Rightarrow> string" where
  "substring1 s = drop 1 s"

text \<open>\<open>s.indexOf(t) !== -1\<close>: \<open>t\<close> occurs in \<open>s\<close> as a contiguous substring.\<close>

fun has_prefix :: "string \<Rightarrow> string \<Rightarrow> bool" where
  "has_prefix [] s = True"
| "has_prefix (p # ps) [] = False"
| "has_prefix (p # ps) (x # xs) = (p = x \<and> has_prefix ps xs)"

fun indexOf_found :: "string \<Rightarrow> string \<Rightarrow> bool" where
  "indexOf_found [] t = (t = [])"
| "indexOf_found (x # xs) t = (has_prefix t (x # xs) \<or> indexOf_found xs t)"

text \<open>Decimal rendering of numbers, as string concatenation and \<open>join\<close> produce it.\<close>

definition digit_char :: "nat \<Rightarrow> char" where
  "digit_char d = char_of (48 + d)"

fun show_nat :: "nat \<Rightarrow> string" where
  "show_nat n = (if n < 10 then [digit_char n] else show_nat (n div 10) @ [digit_char (n mod 10)])"

declare show_nat.simps [simp del]

definition show_int :: "int \<Rightarrow> string" where
  "show_int i = (if i < 0 then CHR ''-'' # show_nat (nat (- i)) else show_nat (nat i))"

definition show_num :: "jsnum \<Rightarrow> string" where
  "show_num v = (case v of None \<Rightarrow> ''NaN'' | Some i \<Rightarrow> show_int i)"

text \<open>
  \<open>parseInt(s)\<close> without a radix: leading white space is skipped, an optional sign is read,
  a \<open>0x\<close>/\<open>0X\<close> prefix selects radix 16, and the longest prefix of digits of the radix is
  the value; \<open>NaN\<close> when there is no digit. Numbers are modelled exactly (no rounding to a
  double).
\<close>

definition is_ws :: "char \<Rightarrow> bool" where
  "is_ws c = ((of_char c :: nat) \<in> {9, 10, 11, 12, 13, 32, 160})"

definition digit_val :: "char \<Rightarrow> nat option" where
  "digit_val c =
     (let n = (of_char c :: nat) in
      if 48 \<le> n \<and> n \<le> 57 then Some (n - 48)
      else if 97 \<le> n \<and> n \<le> 122 then Some (n - 87)
      else if 65 \<le> n \<and> n \<le> 90 then Some (n - 55)
      else None)"

definition is_digit_of :: "nat \<Rightarrow> char \<Rightarrow> bool" where
  "is_digit_of radix c = (case digit_val c of None \<Rightarrow> False | Some d \<Rightarrow> d < radix)"

definition digits_value :: "nat \<Rightarrow> string \<Rightarrow> nat" where
  "digits_value radix ds = foldl (\<lambda>a c. a * radix + (case digit_val c of None \<Rightarrow> 0 | Some d \<Rightarrow> d)) 0 ds"

definition parseInt :: "string \<Rightarrow> jsnum" where
  "parseInt s =
     (let s1 = dropWhile is_ws s;
          neg = (case s1 of [] \<Rightarrow> False | c # r \<Rightarrow> c = CHR ''-'');
          s2 = (case s1 of [] \<Rightarrow> [] | c # r \<Rightarrow> if c = CHR ''-'' \<or> c = CHR ''+'' then r else s1);
          hex = (has_prefix ''0x'' s2 \<or> has_prefix ''0X'' s2);
          radix = (if hex then 16 else 10);
          s3 = (if hex then drop 2 s2 else s2);
          ds = takeWhile (is_digit_of radix) s3
      in if ds = [] then None
         else Some ((if neg then - 1 else 1) * int (digits_value radix ds)))"

text \<open>
  \<open>encodeURIComponent\<close> and \<open>decodeURIComponent\<close> on strings of code units below 256:
  unreserved characters stand for themselves, every other unit is written as the
  percent-escaped bytes of its UTF-8 encoding (one byte below 128, two bytes from 128 to 255).
  Decoding fails with \<open>URIError\<close> on a malformed escape. The lead bytes \<open>0xC4\<close> and above
  announce code points beyond 255, which the string type of this model cannot hold; the decoder
  reports them as an error of their own.
\<close>

definition is_unreserved :: "char \<Rightarrow> bool" where
  "is_unreserved c =
     (let n = (of_char c :: nat) in
      (48 \<le> n \<and> n \<le> 57) \<or> (65 \<le> n \<and> n \<le> 90) \<or> (97 \<le> n \<and> n \<le> 122)
      \<or> c \<in> set ''-_.!~*()'' \<or> n = 39)"

definition hex_char :: "nat \<Rightarrow> char" where
  "hex_char d = (if d < 10 then char_of (48 + d) else char_of (55 + d))"

definition pct :: "nat \<Rightarrow> string" where
  "pct b = [CHR ''%'', hex_char (b div 16), hex_char (b mod 16)]"

definition encode_unit :: "char \<Rightarrow> string" where
  "encode_unit c =
     (let n = (of_char c :: nat) in
      if is_unreserved c then [c]
      else if n < 128 then pct n
      else pct (192 + n div 64) @ pct (128 + n mod 64))"

definition encodeURIComponent :: "string \<Rightarrow> string" where
  "encodeURIComponent s = concat (map encode_unit s)"

definition hex_byte :: "char \<Rightarrow> char \<Rightarrow> nat option" where
  "hex_byte a b =
     (case (digit_val a, digit_val b) of
        (Some x, Some y) \<Rightarrow> if x < 16 \<and> y < 16 then Some (16 * x + y) else None
      | _ \<Rightarrow> None)"

definition cons_ok :: "char \<Rightarrow> error + string \<Rightarrow> error + string" where
  "cons_ok c r = (case r of Inl e \<Rightarrow> Inl e | Inr s \<Rightarrow> Inr (c # s))"

fun decodeURIComponent :: "string \<Rightarrow> error + string" where
  "decodeURIComponent [] = Inr []"
| "decodeURIComponent (c # r) =
     (if c \<noteq> CHR ''%'' then cons_ok c (decodeURIComponent r)
      else (case r of
              a # b # r1 \<Rightarrow>
                (case hex_byte a b of
                   None \<Rightarrow> Inl (URIError ''URI malformed'')
                 | Some n \<Rightarrow>
                     if n < 128 then cons_ok (char_of n) (decodeURIComponent r1)
                     else if n = 194 \<or> n = 195 then
                       (case r1 of
                          p # a2 # b2 # r2 \<Rightarrow>
                            (if p = CHR ''%'' then
                               (case hex_byte a2 b2 of
                                  None \<Rightarrow> Inl (URIError ''URI malformed'')
                                | Some m \<Rightarrow>
                                    if 128 \<le> m \<and> m < 192
                                    then cons_ok (char_of ((n - 192) * 64 + (m - 128)))
                                           (decodeURIComponent r2)
                                    else Inl (URIError ''URI malformed''))
                             else Inl (URIError ''URI malformed''))
                        | _ \<Rightarrow> Inl (URIError ''URI malformed''))
                     else if 196 \<le> n \<and> n \<le> 244 then
                       Inl (Error ''code point outside the modelled string type'')
                     else Inl (URIError ''URI malformed''))
            | _ \<Rightarrow> Inl (URIError ''URI malformed'')))"


section \<open>The condition registry\<close>

text \<open>
  \<open>KeepConditions.conditions()\<close> builds an object literal of eight conditions, in this
  order: search, length, page, colvis, scroller, colorder, select, order. Each has a
  \<open>key\<close>, an \<open>event\<close> (one name or an array of names) and four closures over the controller
  (\<open>isInit\<close>, \<open>onLoad\<close>, \<open>isset\<close>, \<open>newHashVal\<close>), which are dispatched here on the tag
  \<open>behaviour\<close>. An object is an association list in insertion order (the enumeration order of
  keys that are not array indices); property names inherited from \<open>Object.prototype\<close> are not
  modelled.
\<close>

datatype evspec = EventName string | EventList "string list" | EventOther string

datatype cond = CSearch | CLength | CPage | CColvis | CScroller | CColorder | CSelect | COrder

record condition =
  key :: string
  event :: evspec
  behaviour :: cond

definition conditions_all :: "(string \<times> condition) list" where
  "conditions_all =
     [(''search'',   \<lparr>key = ''f'', event = EventName ''search.dt'', behaviour = CSearch\<rparr>),
      (''length'',   \<lparr>key = ''l'', event = EventName ''length.dt'', behaviour = CLength\<rparr>),
      (''page'',     \<lparr>key = ''p'', event = EventName ''page.dt'', behaviour = CPage\<rparr>),
      (''colvis'',   \<lparr>key = ''v'', event = EventName ''column-visibility.dt'', behaviour = CColvis\<rparr>),
      (''scroller'', \<lparr>key = ''s'', event = EventName ''draw.dt'', behaviour = CScroller\<rparr>),
      (''colorder'', \<lparr>key = ''c'', event = EventName ''column-reorder.dt'', behaviour = CColorder\<rparr>),
      (''select'',   \<lparr>key = ''e'', event = EventList [''select'', ''deselect'', ''selectItems''],
                       behaviour = CSelect\<rparr>),
      (''order'',    \<lparr>key = ''o'', event = EventName ''order.dt'', behaviour = COrder\<rparr>)]"

text \<open>
  \<open>_keyMap\<close> applies \<open>conditions => { let ret = {}; $.each(conditions, (name, con) =>
  { ret[con.key] = name }); return ret }\<close> to the registry. The inner function is modelled
  with the registry as its argument. It has no \<open>throw\<close>: assigning an existing property
  overwrites it.
\<close>

definition keyMap_of :: "(string \<times> condition) list \<Rightarrow> (string \<times> string) list" where
  "keyMap_of conditions = foldl (\<lambda>ret (name, con). AList.update (key con) name ret) [] conditions"

definition keyMap :: "(string \<times> string) list" where
  "keyMap = keyMap_of conditions_all"

section \<open>The table, its settings and the controller\<close>

text \<open>
  One record holds what the controller reads and writes: the initialisation options
  \<open>oInit\<close>, the DataTables defaults, the live state of the table as its API getters return
  it, and the controller's own fields. The table widget is an external component: each API
  setter is modelled as storing the value it is given, and requests that only have an effect
  inside the widget (\<open>draw\<close>, \<open>scrollTo\<close>, \<open>select\<close>, \<open>on\<close>, \<open>off\<close>) are recorded.
\<close>

datatype kc_conds = CondsUndefined | CondsArray "string list" | CondsString string

datatype kc_setting =
    KCUndefined | KCFalse | KCTrue | KCString string | KCArray "string list"
  | KCObject kc_conds "bool option"

record oInit_t =
  keepConditions :: kc_setting
  searching :: "bool option"
  lengthChange :: "bool option"
  paging :: "bool option"
  pageLength :: "int option"

record dtDefaults_t =
  bLengthChange :: bool
  bPaginate :: bool
  iDisplayLength :: int
  aaSorting :: "(jsnum \<times> string option) list"

datatype rowsel = RowIndex jsnum | RowId string

record kc =
  oInit :: oInit_t
  dtDefaults :: dtDefaults_t
  aoColumns_bSortable :: "bool list"
  oScroller_baseRowTop :: "jsnum option"
  has_colReorder :: bool
  select_style :: "string option"
  rowId :: "string option"
  tableId :: "string option"
  dt_search :: string
  dt_page_len :: jsnum
  dt_page :: jsnum
  dt_columns_visible :: "bool list"
  dt_order :: "(jsnum \<times> string option) list"
  dt_colReorder_order :: "jsnum list option"
  dt_selected :: "(int \<times> string) list"
  dt_select_requests :: "rowsel list"
  dt_scrollTo :: "jsnum list"
  dt_draws :: "bool list"
  dt_listeners :: "string list"
  keysToCons :: "(string \<times> string) list"
  shouldDraw :: bool
  enabledConditions :: "string option list"
  eventNamespace :: string

text \<open>
  Reading the fields: \<open>oScroller_baseRowTop\<close> is \<open>None\<close> when \<open>dtSettings.oScroller\<close> is
  undefined and otherwise what \<open>parseInt(oScroller.s.baseRowTop)\<close> yields; \<open>has_colReorder\<close>
  says whether \<open>dtSettings._colReorder\<close> is defined and \<open>dt_colReorder_order\<close> is \<open>None\<close>
  when \<open>dtApi.colReorder\<close> is undefined; \<open>select_style\<close> is \<open>None\<close> when
  \<open>dtSettings._select\<close> is undefined; \<open>tableId\<close> is the \<open>id\<close> attribute of the table node,
  \<open>None\<close> when it has none; \<open>dt_selected\<close> lists the selected rows as pairs of row index and
  row id (the empty string for a row without id, which is how \<open>join\<close> renders
  \<open>undefined\<close>); an element \<open>None\<close> of \<open>enabledConditions\<close> is the value \<open>false\<close>
  that \<open>nameByKey\<close> returns for an unknown key.
\<close>

definition nameByKey :: "kc \<Rightarrow> string \<Rightarrow> string option" where
  "nameByKey k ky = map_of (keysToCons k) ky"

text \<open>
  \<open>conditions(con)\<close>: with a string, the condition of that name or \<open>false\<close>; with a non-empty
  array, the object of the named conditions (an unknown name throws); with anything else,
  the whole registry. \<open>conditions_exists c\<close> is the test \<open>this.conditions( c ) !== false\<close>
  for \<open>c\<close> a string or the value \<open>false\<close>.
\<close>

definition conditions_by_name :: "string \<Rightarrow> condition option" where
  "conditions_by_name con = map_of conditions_all con"

definition conditions_exists :: "string option \<Rightarrow> bool" where
  "conditions_exists c = (case c of None \<Rightarrow> True | Some n \<Rightarrow> conditions_by_name n \<noteq> None)"

fun conditions_of_array ::
  "string option list \<Rightarrow> (string \<times> condition) list \<Rightarrow> error + (string \<times> condition) list" where
  "conditions_of_array [] result = Inr result"
| "conditions_of_array (c # cs) result =
     (case c of
        None \<Rightarrow> Inl (Error ''Unable to retrieve condition by name: false'')
      | Some n \<Rightarrow>
          (case conditions_by_name n of
             None \<Rightarrow> Inl (Error (''Unable to retrieve condition by name: '' @ n))
           | Some con \<Rightarrow> conditions_of_array cs (AList.update n con result)))"

definition conditions_array :: "string option list \<Rightarrow> error + (string \<times> condition) list" where
  "conditions_array con = (if con = [] then Inr conditions_all else conditions_of_array con [])"

text \<open>
  \<open>getEnabledConditions\<close> returns \<open>false\<close> (here \<open>None\<close>) for an empty array and
  \<open>$.unique( this._enabledConditions )\<close> otherwise. jQuery documents \<open>$.unique\<close> for arrays
  of DOM elements only. On an array of names its implementation first sorts with a comparison
  that leaves strings and \<open>false\<close> in the order they have, then scans the array with
  \<open>while ( (elem = results[i++]) ) if ( elem === results[ i ] ) ...\<close>, marking every element
  equal to the one before it, and removes the marked elements. The scan ends at the first
  falsy element, \<open>false\<close> or the empty string: a name that directly follows an equal one is
  dropped before that element, and the array from that element on stays as it is. The call
  works in place, so the controller's array is changed as well (\<open>touch_enabled\<close>).
\<close>

definition falsy_name :: "string option \<Rightarrow> bool" where
  "falsy_name x = (x = None \<or> x = Some [])"

fun jq_unique :: "string option list \<Rightarrow> string option list" where
  "jq_unique [] = []"
| "jq_unique [x] = [x]"
| "jq_unique (x # y # ys) =
     (if falsy_name x then x # y # ys
      else if x = y then jq_unique (x # ys)
      else x # jq_unique (y # ys))"

definition getEnabledConditions :: "kc \<Rightarrow> string option list option" where
  "getEnabledConditions k =
     (if length (enabledConditions k) > 0 then Some (jq_unique (enabledConditions k)) else None)"

definition touch_enabled :: "kc \<Rightarrow> kc" where
  "touch_enabled k = k\<lparr>enabledConditions := jq_unique (enabledConditions k)\<rparr>"


section \<open>The four behaviours of each condition\<close>

text \<open>\<open>isInit\<close>: is the feature that the condition tracks set up on this table?\<close>

definition isInit :: "kc \<Rightarrow> cond \<Rightarrow> bool" where
  "isInit k c =
     (case c of
        CSearch \<Rightarrow> searching (oInit k) = None \<or> searching (oInit k) \<noteq> Some False
      | CLength \<Rightarrow>
          \<not> (lengthChange (oInit k) = Some False
             \<or> (lengthChange (oInit k) = None \<and> bLengthChange (dtDefaults k) = False))
      | CPage \<Rightarrow>
          \<not> (paging (oInit k) = Some False
             \<or> (paging (oInit k) = None \<and> bPaginate (dtDefaults k) = False))
      | CColvis \<Rightarrow> True
      | CScroller \<Rightarrow> oScroller_baseRowTop k \<noteq> None
      | CColorder \<Rightarrow> has_colReorder k
      | CSelect \<Rightarrow> select_style k \<noteq> None
      | COrder \<Rightarrow> True \<in> set (aoColumns_bSortable k))"

text \<open>
  \<open>isset\<close>: is the live value away from its default? The result is the truth value that
  \<open>if ( ....isset( ) )\<close> sees. \<open>oInit.pageLength || _dtDefaults.iDisplayLength\<close> is the
  configured default page length.
\<close>

definition default_length :: "kc \<Rightarrow> int" where
  "default_length k =
     (case pageLength (oInit k) of
        None \<Rightarrow> iDisplayLength (dtDefaults k)
      | Some n \<Rightarrow> if n \<noteq> 0 then n else iDisplayLength (dtDefaults k))"

definition truthy_num :: "jsnum \<Rightarrow> bool" where
  "truthy_num v = (v \<noteq> None \<and> v \<noteq> Some 0)"

definition column_indexes :: "kc \<Rightarrow> nat list" where
  "column_indexes k = [0..<length (dt_columns_visible k)]"

definition isset :: "kc \<Rightarrow> cond \<Rightarrow> error + bool" where
  "isset k c =
     (case c of
        CSearch \<Rightarrow> Inr (length (dt_search k) \<noteq> 0)
      | CLength \<Rightarrow> Inr (truthy_num (dt_page_len k) \<and> dt_page_len k \<noteq> Some (default_length k))
      | CPage \<Rightarrow> Inr (dt_page k \<noteq> Some 0)
      | CColvis \<Rightarrow> Inr (False \<in> set (dt_columns_visible k))
      | CScroller \<Rightarrow>
          (case oScroller_baseRowTop k of
             None \<Rightarrow> Inl (TypeError ''Cannot read property s of undefined'')
           | Some v \<Rightarrow> Inr (v \<noteq> Some 0))
      | CColorder \<Rightarrow>
          (case dt_colReorder_order k of
             None \<Rightarrow> Inr False
           | Some ord \<Rightarrow> Inr (ord \<noteq> map (\<lambda>i. Some (int i)) (column_indexes k)))
      | CSelect \<Rightarrow> Inr (select_style k \<noteq> None)
      | COrder \<Rightarrow> Inr (dt_order k \<noteq> [] \<and> dt_order k \<noteq> aaSorting (dtDefaults k)))"

text \<open>
  \<open>colvis.newHashVal\<close>: the indexes of the visible columns go to \<open>t\<close>, those of the hidden
  ones to \<open>f\<close>; \<open>if ( t.length >= f.length ) return `f${f.join('.')}`\<close>, otherwise
  \<open>`t${t.join('.')}`\<close>.
\<close>

definition visible_indexes :: "bool list \<Rightarrow> nat list" where
  "visible_indexes vs = filter (\<lambda>i. vs ! i) [0..<length vs]"

definition hidden_indexes :: "bool list \<Rightarrow> nat list" where
  "hidden_indexes vs = filter (\<lambda>i. \<not> vs ! i) [0..<length vs]"

definition colvis_newHashVal :: "bool list \<Rightarrow> string" where
  "colvis_newHashVal vs =
     (let t = visible_indexes vs; f = hidden_indexes vs in
      if length t \<ge> length f then ''f'' @ join ''.'' (map show_nat f)
      else ''t'' @ join ''.'' (map show_nat t))"

text \<open>
  \<open>colorder.newHashVal\<close>: one pass over the sequence with three variables, \<open>prev\<close>
  (undefined before the first element), \<open>result\<close> and \<open>collection\<close>. The numbers pushed on
  \<open>result\<close> are only ever joined, so they are stored in the form \<open>join\<close> gives them.
  Comparisons and \<open>===\<close> with \<open>NaN\<close> are false.
\<close>

definition js_gt :: "jsnum \<Rightarrow> jsnum \<Rightarrow> bool" where
  "js_gt a b = (case (a, b) of (Some x, Some y) \<Rightarrow> x > y | _ \<Rightarrow> False)"

definition js_eq :: "jsnum \<Rightarrow> jsnum \<Rightarrow> bool" where
  "js_eq a b = (case (a, b) of (Some x, Some y) \<Rightarrow> x = y | _ \<Rightarrow> False)"

definition js_plus :: "jsnum \<Rightarrow> int \<Rightarrow> jsnum" where
  "js_plus a d = (case a of None \<Rightarrow> None | Some x \<Rightarrow> Some (x + d))"

definition lastInCol :: "jsnum list \<Rightarrow> nat \<Rightarrow> jsnum" where
  "lastInCol collection i =
     (if 0 < i \<and> i \<le> length collection then collection ! (length collection - i) else None)"

fun compileColl :: "jsnum list \<Rightarrow> string" where
  "compileColl [a, b] = show_num a @ ''.'' @ show_num b"
| "compileColl [] = ''undefined-undefined''"
| "compileColl (a # as) = show_num a @ ''-'' @ show_num (last (a # as))"

fun colorder_step ::
  "jsnum option \<times> string list \<times> jsnum list \<Rightarrow> jsnum \<Rightarrow> jsnum option \<times> string list \<times> jsnum list" where
  "colorder_step (prev, result, collection) s =
     (case prev of
        None \<Rightarrow> (Some s, result @ [show_num s], collection)
      | Some p \<Rightarrow>
          if length collection > 0 then
            if js_gt (lastInCol collection 1) (lastInCol collection 2)
               \<and> js_eq s (js_plus (lastInCol collection 1) 1)
            then (Some s, result, collection @ [s])
            else if js_gt (lastInCol collection 2) (lastInCol collection 1)
               \<and> js_eq s (js_plus (lastInCol collection 1) (- 1))
            then (Some s, result, collection @ [s])
            else (Some s, result @ [compileColl collection, show_num s], [])
          else if js_eq s (js_plus p 1) \<or> js_eq s (js_plus p (- 1))
          then (Some s, butlast result, [p, s])
          else (Some s, result @ [show_num s], collection))"

definition colorder_newHashVal :: "jsnum list \<Rightarrow> string" where
  "colorder_newHashVal sequence =
     (case foldl colorder_step (None, [], []) sequence of
        (prev, result, collection) \<Rightarrow>
          join ''.'' (if length collection > 0 then result @ [compileColl collection] else result))"

text \<open>
  \<open>newHashVal\<close>: the value part of the token entry. \<open>None\<close> stands for the results
  \<open>undefined\<close> and \<open>false\<close>, for which \<open>structureHash\<close> adds no entry; a number is given in
  the form that \<open>key + conHashVal\<close> concatenates.
\<close>

definition newHashVal :: "kc \<Rightarrow> cond \<Rightarrow> error + string option" where
  "newHashVal k c =
     (case c of
        CSearch \<Rightarrow> Inr (Some (encodeURIComponent (dt_search k)))
      | CLength \<Rightarrow> Inr (Some (show_num (dt_page_len k)))
      | CPage \<Rightarrow> Inr (Some (show_num (dt_page k)))
      | CColvis \<Rightarrow> Inr (Some (colvis_newHashVal (dt_columns_visible k)))
      | CScroller \<Rightarrow>
          (case oScroller_baseRowTop k of
             None \<Rightarrow> Inl (TypeError ''Cannot read property s of undefined'')
           | Some scrollPos \<Rightarrow> Inr (if scrollPos \<noteq> Some 0 then Some (show_num scrollPos) else None))
      | CColorder \<Rightarrow>
          (case dt_colReorder_order k of
             None \<Rightarrow> Inl (TypeError ''Cannot read property order of undefined'')
           | Some sequence \<Rightarrow> Inr (Some (colorder_newHashVal sequence)))
      | CSelect \<Rightarrow>
          (if length (dt_selected k) = 0 then Inr None
           else if rowId k \<noteq> None then Inr (Some (join ''.'' (map snd (dt_selected k))))
           else Inr (Some (join ''.'' (map (\<lambda>r. show_int (fst r)) (dt_selected k)))))
      | COrder \<Rightarrow>
          (case dt_order k of
             [] \<Rightarrow> Inl (TypeError ''Cannot read property 1 of undefined'')
           | (col, dir) # rest \<Rightarrow>
               (case dir of
                  None \<Rightarrow> Inl (TypeError ''Cannot read property charAt of undefined'')
                | Some d \<Rightarrow> Inr (Some (charAt0 d @ show_num col)))))"

text \<open>
  \<open>colorder.onLoad\<close> expands each dot-separated item: an item with a dash is split at the
  dashes and the range from \<open>parseInt(spl[0])\<close> to \<open>parseInt(spl[1])\<close> is pushed, counting
  down when the first is greater and up otherwise (neither loop runs when one bound is
  \<open>NaN\<close>); any other item is pushed as it is and parsed at the end.
\<close>

definition expand_item :: "string \<Rightarrow> jsnum list" where
  "expand_item s =
     (if CHR ''-'' \<in> set s then
        (case split_on CHR ''-'' s of
           x # y # rest \<Rightarrow>
             (case (parseInt x, parseInt y) of
                (Some a, Some b) \<Rightarrow>
                  if a > b then map Some (rev [b..a]) else map Some [a..b]
              | _ \<Rightarrow> [])
         | _ \<Rightarrow> [])
      else [parseInt s])"

definition hashColOrder :: "string \<Rightarrow> jsnum list" where
  "hashColOrder hashComponent = concat (map expand_item (split_on CHR ''.'' hashComponent))"

definition colvis_apply :: "string \<Rightarrow> string list \<Rightarrow> nat list \<Rightarrow> bool list" where
  "colvis_apply isVis columns indexes =
     map (\<lambda>v. if isVis = ''t'' then show_nat v \<in> set columns else show_nat v \<notin> set columns) indexes"

definition dir_lookup :: "string \<Rightarrow> string option" where
  "dir_lookup c = (if c = ''a'' then Some ''asc'' else if c = ''d'' then Some ''desc'' else None)"

text \<open>
  \<open>onLoad\<close>: apply the value part of a token entry to the table. The argument is always a
  string here (\<open>c.substring( 1 )\<close>).
\<close>

definition onLoad :: "kc \<Rightarrow> cond \<Rightarrow> string \<Rightarrow> error + kc" where
  "onLoad k c hashComponent =
     (case c of
        CSearch \<Rightarrow>
          (case decodeURIComponent hashComponent of
             Inl e \<Rightarrow> Inl e
           | Inr d \<Rightarrow> Inr (if dt_search k \<noteq> d then k\<lparr>dt_search := d, shouldDraw := True\<rparr> else k))
      | CLength \<Rightarrow> Inr (k\<lparr>dt_page_len := parseInt hashComponent, shouldDraw := True\<rparr>)
      | CPage \<Rightarrow>
          Inr (if parseInt hashComponent \<noteq> Some 0
               then k\<lparr>dt_page := parseInt hashComponent, shouldDraw := True\<rparr> else k)
      | CColvis \<Rightarrow>
          (let isVis = charAt0 hashComponent;
               columns = split_on CHR ''.'' (substring1 hashComponent)
           in if isVis \<noteq> ''f'' \<and> isVis \<noteq> ''t'' then Inr k
              else Inr (k\<lparr>dt_columns_visible := colvis_apply isVis columns (column_indexes k),
                          shouldDraw := True\<rparr>))
      | CScroller \<Rightarrow>
          Inr (if parseInt hashComponent \<noteq> Some 0
               then k\<lparr>dt_scrollTo := dt_scrollTo k @ [parseInt hashComponent]\<rparr> else k)
      | CColorder \<Rightarrow>
          (case dt_colReorder_order k of
             None \<Rightarrow> Inr k
           | Some current \<Rightarrow>
               Inr (if hashColOrder hashComponent \<noteq> current
                    then k\<lparr>dt_colReorder_order := Some (hashColOrder hashComponent),
                           shouldDraw := True\<rparr>
                    else k))
      | CSelect \<Rightarrow>
          (if length hashComponent = 0 then Inr k
           else
             (let rows = (if rowId k \<noteq> None then map RowId (split_on CHR ''.'' hashComponent)
                          else map (\<lambda>v. RowIndex (parseInt v)) (split_on CHR ''.'' hashComponent))
              in case select_style k of
                   None \<Rightarrow> Inl (TypeError ''Cannot read property style of undefined'')
                 | Some st \<Rightarrow>
                     if st = ''multi'' then Inr (k\<lparr>dt_select_requests := dt_select_requests k @ rows\<rparr>)
                     else (case rows of
                             [] \<Rightarrow> Inr k
                           | r # rs \<Rightarrow> Inr (k\<lparr>dt_select_requests := dt_select_requests k @ [r]\<rparr>))))
      | COrder \<Rightarrow>
          Inr (k\<lparr>dt_order := [(parseInt (substring1 hashComponent), dir_lookup (charAt0 hashComponent))],
                 shouldDraw := True\<rparr>))"

definition drawTable :: "kc \<Rightarrow> bool \<Rightarrow> bool \<Rightarrow> kc" where
  "drawTable k force resetPaging =
     (if shouldDraw k \<or> force then k\<lparr>dt_draws := dt_draws k @ [resetPaging], shouldDraw := False\<rparr>
      else k)"


section \<open>The fragment codec\<close>

text \<open>
  \<open>window.location.hash\<close> reads as the empty string when the URL has no fragment and as
  \<open>#\<close> followed by the fragment otherwise; assigning it drops one leading \<open>#\<close> of the
  assigned value. The state variable \<open>frag\<close> of the model is the fragment without the
  \<open>#\<close>. The browser's own escaping of fragment characters is not modelled.
\<close>

definition location_hash :: "string \<Rightarrow> string" where
  "location_hash frag = (if frag = [] then [] else CHR ''#'' # frag)"

definition set_location_hash :: "string \<Rightarrow> string" where
  "set_location_hash v = (case v of [] \<Rightarrow> [] | c # r \<Rightarrow> if c = CHR ''#'' then r else v)"

text \<open>
  \<open>queryString\<close>: a value of the parsed object is \<open>undefined\<close> (an entry without \<open>=\<close>),
  a string, or, from the second entry of the same name on, an array of the values.
\<close>

text \<open>
  The object that \<open>queryString\<close> fills, like the object \<open>hash\<close> of \<open>structureHash\<close>, is
  an association list in the order in which the names are first assigned. That is the order
  in which \<open>$.each\<close> visits the object, except that JavaScript enumerates names that are
  array indexes (\<open>0\<close>, \<open>17\<close>) before the others; and for a name that every object
  inherits (\<open>toString\<close>, \<open>constructor\<close>, \<open>__proto__\<close> and the like) the test
  \<open>typeof queryString[ name ] === 'undefined'\<close> is false before anything has been assigned,
  which the list does not reproduce.
\<close>

datatype qval = QUndef | QStr string | QArr "string option list"

definition qval_of :: "string option \<Rightarrow> qval" where
  "qval_of v = (case v of None \<Rightarrow> QUndef | Some s \<Rightarrow> QStr s)"

definition queryString_step :: "(string \<times> qval) list \<Rightarrow> string \<Rightarrow> (string \<times> qval) list" where
  "queryString_step qs v =
     (case split_on CHR ''='' v of
        [] \<Rightarrow> qs
      | p0 # ps \<Rightarrow>
          (let p1 = (case ps of [] \<Rightarrow> None | x # xs \<Rightarrow> Some x) in
           case map_of qs p0 of
             None \<Rightarrow> AList.update p0 (qval_of p1) qs
           | Some QUndef \<Rightarrow> AList.update p0 (qval_of p1) qs
           | Some (QStr old) \<Rightarrow> AList.update p0 (QArr [Some old, p1]) qs
           | Some (QArr a) \<Rightarrow> AList.update p0 (QArr (a @ [p1])) qs))"

definition queryString :: "string \<Rightarrow> (string \<times> qval) list" where
  "queryString frag =
     (let query = substring1 (location_hash frag);
          vars = split_on CHR ''&'' query
      in foldl queryString_step [] vars)"

section \<open>structureHash\<close>

text \<open>
  The first loop copies the entries of the other tables into \<open>hash\<close>:
  \<open>if ( ! table && ! cons ) return; if ( table !== tableID ) hash[ table ] = cons || ''\<close>.
  A value of \<open>hash\<close> is therefore a string or an array.
\<close>

datatype hval = HStr string | HArr "string option list"

definition qval_falsy :: "qval \<Rightarrow> bool" where
  "qval_falsy v = (case v of QUndef \<Rightarrow> True | QStr s \<Rightarrow> s = [] | QArr a \<Rightarrow> False)"

definition cons_or_empty :: "qval \<Rightarrow> hval" where
  "cons_or_empty v = (case v of QUndef \<Rightarrow> HStr [] | QStr s \<Rightarrow> HStr s | QArr a \<Rightarrow> HArr a)"

definition other_tables_step ::
  "string option \<Rightarrow> (string \<times> hval) list \<Rightarrow> string \<times> qval \<Rightarrow> (string \<times> hval) list" where
  "other_tables_step tableID hash tc =
     (case tc of (table, cons) \<Rightarrow>
        if table = [] \<and> qval_falsy cons then hash
        else if Some table \<noteq> tableID then AList.update table (cons_or_empty cons) hash
        else hash)"

text \<open>
  The second loop asks each enabled condition: \<open>if ( conditions( )[ c ].isset( ) )\<close>, then
  \<open>newHashVal( )\<close>, and the entry \<open>key + conHashVal\<close> is pushed unless the value is
  \<open>undefined\<close> or \<open>false\<close>. A name that is not in the registry makes
  \<open>conditions( )[ c ]\<close> undefined, and reading \<open>isset\<close> from it throws.
\<close>

fun tableHash_loop :: "kc \<Rightarrow> string option list \<Rightarrow> string list \<Rightarrow> error + string list" where
  "tableHash_loop k [] tableHash = Inr tableHash"
| "tableHash_loop k (c # cs) tableHash =
     (case (case c of None \<Rightarrow> None | Some n \<Rightarrow> conditions_by_name n) of
        None \<Rightarrow> Inl (TypeError ''Cannot read property isset of undefined'')
      | Some con \<Rightarrow>
          (case isset k (behaviour con) of
             Inl e \<Rightarrow> Inl e
           | Inr b \<Rightarrow>
               if b then
                 (case newHashVal k (behaviour con) of
                    Inl e \<Rightarrow> Inl e
                  | Inr None \<Rightarrow> tableHash_loop k cs tableHash
                  | Inr (Some conHashVal) \<Rightarrow> tableHash_loop k cs (tableHash @ [key con @ conHashVal]))
               else tableHash_loop k cs tableHash))"

text \<open>
  The last loop: \<open>if(conditions.length > 0) urlHash.push(`${table}=${conditions}` )\<close>. In
  the template an array is rendered by its \<open>toString\<close>, the elements joined by commas with
  \<open>undefined\<close> as the empty string.
\<close>

definition hval_length :: "hval \<Rightarrow> nat" where
  "hval_length v = (case v of HStr s \<Rightarrow> length s | HArr a \<Rightarrow> length a)"

definition hval_string :: "hval \<Rightarrow> string" where
  "hval_string v =
     (case v of
        HStr s \<Rightarrow> s
      | HArr a \<Rightarrow> join '','' (map (\<lambda>x. case x of None \<Rightarrow> [] | Some s \<Rightarrow> s) a))"

definition urlHash_of :: "(string \<times> hval) list \<Rightarrow> string list" where
  "urlHash_of hash =
     map (\<lambda>(table, conditions). table @ ''='' @ hval_string conditions)
       (filter (\<lambda>(table, conditions). hval_length conditions > 0) hash)"

definition tableID_key :: "string option \<Rightarrow> string" where
  "tableID_key tableID = (case tableID of None \<Rightarrow> ''undefined'' | Some t \<Rightarrow> t)"

text \<open>
  \<open>structureHash\<close> is modelled for a call that reaches the settings object of a table with a
  controller (an event of the table, the controller itself, or the settings). The result is
  the returned string, if \<open>retrieve === true\<close>, and the fragment after the call.
\<close>

definition structureHash :: "string \<Rightarrow> kc \<Rightarrow> bool \<Rightarrow> error + (string option \<times> string)" where
  "structureHash frag k retrieve =
     (case getEnabledConditions k of
        None \<Rightarrow> Inl (Error ''Couldn't get conditions from table settings'')
      | Some conditions \<Rightarrow>
          (let hashParsed = queryString frag;
               tableID = tableId k;
               hash0 = foldl (other_tables_step tableID) [] hashParsed
           in case tableHash_loop k conditions [] of
                Inl e \<Rightarrow> Inl e
              | Inr tableHash \<Rightarrow>
                  (let hash = AList.update (tableID_key tableID) (HStr (join '':'' tableHash)) hash0;
                       newHash = join ''&'' (urlHash_of hash)
                   in if retrieve then Inr (Some newHash, frag)
                      else Inr (None, set_location_hash (if newHash = [] then ''_'' else newHash)))))"

section \<open>processHash\<close>

text \<open>
  For each entry of the token: the key is its first character, the value the rest; the entry
  is skipped unless the name for the key is among the enabled conditions
  (\<open>$.inArray(conName, this.getEnabledConditions( )) === -1\<close>) and names a condition.
\<close>

definition entry_step :: "kc \<Rightarrow> string \<Rightarrow> error + kc" where
  "entry_step k c =
     (let conKey = charAt0 c;
          conVal = substring1 c;
          conName = nameByKey k conKey;
          enabled = (case getEnabledConditions k of None \<Rightarrow> [] | Some en \<Rightarrow> en);
          k1 = touch_enabled k
      in if conName \<notin> set enabled then Inr k1
         else (case (case conName of None \<Rightarrow> None | Some n \<Rightarrow> conditions_by_name n) of
                 None \<Rightarrow> Inr k1
               | Some oCondition \<Rightarrow> onLoad k1 (behaviour oCondition) conVal))"

fun entries_loop :: "kc \<Rightarrow> string list \<Rightarrow> error + kc" where
  "entries_loop k [] = Inr k"
| "entries_loop k (c # cs) =
     (case entry_step k c of Inl e \<Rightarrow> Inl e | Inr k1 \<Rightarrow> entries_loop k1 cs)"

definition processHash_table :: "kc \<Rightarrow> string \<times> qval \<Rightarrow> error + kc" where
  "processHash_table k tc =
     (case tc of (table, cons) \<Rightarrow>
        (let cons1 = (case cons of
                        QArr a \<Rightarrow> (case a of [] \<Rightarrow> QUndef | x # xs \<Rightarrow> qval_of x)
                      | _ \<Rightarrow> cons)
         in if Some table \<noteq> tableId k then Inr k
            else (case cons1 of
                    QStr s \<Rightarrow>
                      (case entries_loop k (split_on CHR '':'' s) of
                         Inl e \<Rightarrow> Inl e
                       | Inr k1 \<Rightarrow> Inr (drawTable k1 False False))
                  | _ \<Rightarrow> Inl (TypeError ''Cannot read property split of undefined''))))"

fun processHash_loop :: "kc \<Rightarrow> (string \<times> qval) list \<Rightarrow> error + kc" where
  "processHash_loop k [] = Inr k"
| "processHash_loop k (tc # tcs) =
     (case processHash_table k tc of Inl e \<Rightarrow> Inl e | Inr k1 \<Rightarrow> processHash_loop k1 tcs)"

definition processHash :: "string \<Rightarrow> kc \<Rightarrow> error + kc" where
  "processHash frag k = processHash_loop k (queryString frag)"


section \<open>Enabling and disabling conditions\<close>

text \<open>
  The argument of \<open>enableCondition\<close> and \<open>disableCondition\<close> is a string, an array of
  strings, or something else (which neither branch handles). A string of length 1 is a key
  and is replaced by \<open>nameByKey\<close> of it, which is \<open>false\<close> for an unknown key.
\<close>

datatype cond_arg = CondName string | CondList "string list" | CondOther

definition resolve_name :: "kc \<Rightarrow> string \<Rightarrow> string option" where
  "resolve_name k c = (if length c = 1 then nameByKey k c else Some c)"

text \<open>\<open>$.inArray(x, xs)\<close>: the first index of \<open>x\<close>, or \<open>-1\<close>.\<close>

fun inArray_from :: "'a \<Rightarrow> 'a list \<Rightarrow> int \<Rightarrow> int" where
  "inArray_from x [] i = - 1"
| "inArray_from x (y # ys) i = (if x = y then i else inArray_from x ys (i + 1))"

definition inArray :: "'a \<Rightarrow> 'a list \<Rightarrow> int" where
  "inArray x xs = inArray_from x xs 0"

text \<open>
  \<open>xs.splice(start, 1)\<close>: a negative \<open>start\<close> counts from the end (and is clamped to 0),
  a \<open>start\<close> beyond the end is clamped to the length; one element is removed there if there
  is one.
\<close>

definition splice1 :: "int \<Rightarrow> 'a list \<Rightarrow> 'a list" where
  "splice1 start xs =
     (let n = int (length xs);
          st = (if start < 0 then max (n + start) 0 else min start n)
      in take (nat st) xs @ drop (nat st + 1) xs)"

definition enable_one :: "kc \<times> bool \<Rightarrow> string \<Rightarrow> kc \<times> bool" where
  "enable_one kd c =
     (case kd of (k, done) \<Rightarrow>
        (let c1 = resolve_name k c in
         if conditions_exists c1
         then (k\<lparr>enabledConditions := enabledConditions k @ [c1]\<rparr>, True)
         else (k, done)))"

definition disable_one :: "kc \<times> bool \<Rightarrow> string \<Rightarrow> kc \<times> bool" where
  "disable_one kd c =
     (case kd of (k, done) \<Rightarrow>
        (let c1 = resolve_name k c in
         if conditions_exists c1
         then (k\<lparr>enabledConditions :=
                   splice1 (inArray c1 (enabledConditions k)) (enabledConditions k)\<rparr>, True)
         else (k, done)))"

text \<open>
  Both operations change the array first and then, \<open>if ( structureHash === true && done
  === true )\<close>, call \<open>KeepConditions.structureHash\<close>, which may throw. The result is the
  controller and the fragment as they are when the call ends, and the error if it ended by
  throwing.
\<close>

definition restructure :: "string \<Rightarrow> kc \<times> bool \<Rightarrow> bool \<Rightarrow> kc \<times> string \<times> error option" where
  "restructure frag kd structureHash_flag =
     (case kd of (k, done) \<Rightarrow>
        if structureHash_flag \<and> done then
          (case structureHash frag k False of
             Inl e \<Rightarrow> (touch_enabled k, frag, Some e)
           | Inr (r, frag1) \<Rightarrow> (touch_enabled k, frag1, None))
        else (k, frag, None))"

definition enableCondition ::
  "string \<Rightarrow> kc \<Rightarrow> cond_arg \<Rightarrow> bool \<Rightarrow> kc \<times> string \<times> error option" where
  "enableCondition frag k condition structureHash_flag =
     restructure frag
       (case condition of
          CondList cs \<Rightarrow> foldl enable_one (k, False) cs
        | CondName c \<Rightarrow> enable_one (k, False) c
        | CondOther \<Rightarrow> (k, False))
       structureHash_flag"

definition disableCondition ::
  "string \<Rightarrow> kc \<Rightarrow> cond_arg \<Rightarrow> bool \<Rightarrow> kc \<times> string \<times> error option" where
  "disableCondition frag k condition structureHash_flag =
     restructure frag
       (case condition of
          CondList cs \<Rightarrow> foldl disable_one (k, False) cs
        | CondName c \<Rightarrow> disable_one (k, False) c
        | CondOther \<Rightarrow> (k, False))
       structureHash_flag"

section \<open>Which conditions the options ask for\<close>

text \<open>
  \<open>_isEnabled\<close>: for a name that is not in the registry it throws; for a key it goes on with
  \<open>nameByKey\<close> of the key. \<open>this.conditions( condition ).key\<close> is \<open>undefined\<close> when the
  lookup gives no condition, and \<open>indexOf\<close> then searches for the text \<open>undefined\<close>.
\<close>

definition key_for :: "string option \<Rightarrow> string" where
  "key_for c =
     (case (case c of None \<Rightarrow> None | Some n \<Rightarrow> conditions_by_name n) of
        None \<Rightarrow> ''undefined''
      | Some con \<Rightarrow> key con)"

definition isEnabled :: "kc \<Rightarrow> string \<Rightarrow> error + bool" where
  "isEnabled k condition =
     (if length condition \<noteq> 1 \<and> conditions_by_name condition = None
      then Inl (Error (''Unable to find an existing condition with the name ''
                       @ [CHR 0x27] @ condition @ [CHR 0x27]))
      else
        (let c = (if length condition = 1 then nameByKey k condition else Some condition);
             options = keepConditions (oInit k)
         in Inr (case options of
                   KCTrue \<Rightarrow> True
                 | KCUndefined \<Rightarrow> True
                 | KCFalse \<Rightarrow> False
                 | KCString keys \<Rightarrow> indexOf_found keys (key_for c)
                 | KCArray names \<Rightarrow> (case c of None \<Rightarrow> False | Some n \<Rightarrow> n \<in> set names)
                 | KCObject conds a \<Rightarrow>
                     (case conds of
                        CondsArray names \<Rightarrow> (case c of None \<Rightarrow> False | Some n \<Rightarrow> n \<in> set names)
                      | CondsString keys \<Rightarrow> indexOf_found keys (key_for c)
                      | CondsUndefined \<Rightarrow> False))))"

section \<open>Attaching and detaching the listeners\<close>

text \<open>
  \<open>attachEvents\<close> and \<open>detachEvents\<close> start alike: \<open>enabledConditions =
  this.getEnabledConditions( ); if ( enabledConditions === false ) throw new Error(...)\<close>, then
  \<open>this.conditions( enabledConditions )\<close>. A listener is recorded under the name it is
  attached with, \<open>`${event}.${this._eventNamespace}`\<close>; \<open>off\<close> removes the listeners of
  that name.
\<close>

definition event_string :: "evspec \<Rightarrow> string" where
  "event_string e =
     (case e of EventName n \<Rightarrow> n | EventList ns \<Rightarrow> join '','' ns | EventOther t \<Rightarrow> t)"

fun attach_loop :: "kc \<Rightarrow> (string \<times> condition) list \<Rightarrow> error + kc" where
  "attach_loop k [] = Inr k"
| "attach_loop k ((sCondition, oCondition) # rest) =
     (case event oCondition of
        EventList es \<Rightarrow>
          attach_loop
            (k\<lparr>dt_listeners := dt_listeners k @ map (\<lambda>e. e @ ''.'' @ eventNamespace k) es\<rparr>) rest
      | EventName e \<Rightarrow>
          attach_loop (k\<lparr>dt_listeners := dt_listeners k @ [e @ ''.'' @ eventNamespace k]\<rparr>) rest
      | EventOther t \<Rightarrow>
          Inl (Thrown (''Expected the event for '' @ sCondition
                 @ '' to be a string, or an array of strings - received typeof '' @ t)))"

definition attachEvents :: "kc \<Rightarrow> error + kc" where
  "attachEvents k =
     (case getEnabledConditions k of
        None \<Rightarrow> Inl (Error ''No enabled conditions to attach to events'')
      | Some enabled \<Rightarrow>
          (case conditions_array enabled of
             Inl e \<Rightarrow> Inl e
           | Inr conditions \<Rightarrow> attach_loop (touch_enabled k) conditions))"

fun detach_loop :: "kc \<Rightarrow> (string \<times> condition) list \<Rightarrow> error + kc" where
  "detach_loop k [] = Inr k"
| "detach_loop k ((sCondition, oCondition) # rest) =
     (case isEnabled k sCondition of
        Inl e \<Rightarrow> Inl e
      | Inr en \<Rightarrow>
          if \<not> en \<or> \<not> isInit k (behaviour oCondition) then detach_loop k rest
          else detach_loop
                 (k\<lparr>dt_listeners :=
                      filter (\<lambda>l. l \<noteq> event_string (event oCondition) @ ''.'' @ eventNamespace k)
                        (dt_listeners k)\<rparr>) rest)"

definition detachEvents :: "kc \<Rightarrow> error + kc" where
  "detachEvents k =
     (case getEnabledConditions k of
        None \<Rightarrow> Inl (Error ''No enabled conditions to attach to events'')
      | Some enabled \<Rightarrow>
          (case conditions_array enabled of
             Inl e \<Rightarrow> Inl e
           | Inr conditions \<Rightarrow> detach_loop (touch_enabled k) conditions))"

section \<open>Construction\<close>

text \<open>
  \<open>_collectEnabled\<close> enables every condition of the registry that the options ask for and
  whose feature is set up; \<open>_init\<close> then attaches the listeners, unless the options are an
  object with \<open>attachEvents\<close> other than \<open>true\<close> (or are \<open>undefined\<close> or \<open>false\<close>), and
  processes the fragment.
\<close>

fun collect_loop :: "kc \<Rightarrow> (string \<times> condition) list \<Rightarrow> error + kc" where
  "collect_loop k [] = Inr k"
| "collect_loop k ((sCondition, oCondition) # rest) =
     (case isEnabled k sCondition of
        Inl e \<Rightarrow> Inl e
      | Inr en \<Rightarrow>
          if \<not> en \<or> \<not> isInit k (behaviour oCondition) then collect_loop k rest
          else collect_loop (fst (enable_one (k, False) sCondition)) rest)"

definition collectEnabled :: "kc \<Rightarrow> error + kc" where
  "collectEnabled k = collect_loop k conditions_all"

definition wants_attach :: "kc_setting \<Rightarrow> bool" where
  "wants_attach opt =
     (case opt of
        KCTrue \<Rightarrow> True
      | KCString s \<Rightarrow> True
      | KCArray a \<Rightarrow> True
      | KCObject c a \<Rightarrow> a = None \<or> a = Some True
      | _ \<Rightarrow> False)"

definition init :: "string \<Rightarrow> kc \<Rightarrow> error + kc" where
  "init frag k =
     (case collectEnabled k of
        Inl e \<Rightarrow> Inl e
      | Inr k1 \<Rightarrow>
          (case (if wants_attach (keepConditions (oInit k1)) then attachEvents k1 else Inr k1) of
             Inl e \<Rightarrow> Inl e
           | Inr k2 \<Rightarrow> processHash frag k2))"

text \<open>
  The constructor's argument is a DataTable (an instance or a selector of one), an instance of
  the DataTables API bound to a table, the settings object of a table (what the \<open>init.dt\<close>
  handler passes, and what \<open>new $.fn.dataTable.Api( dtSettings )\<close> accepts although
  \<open>isDataTable\<close> does not), or any other value. Its first statement is
  \<open>if ( ! $.fn.DataTable.isDataTable( dtSettings ) && ! dtSettings instanceof
  $.fn.dataTable.Api ) throw new Error(...)\<close>. Unary \<open>!\<close> binds tighter than
  \<open>instanceof\<close>, so the second operand is \<open>(! dtSettings) instanceof Api\<close>: a boolean on
  the left of \<open>instanceof\<close>, which is never an instance. For a value that is no table the
  API object has no settings, \<open>settings()[ 0 ]\<close> is \<open>undefined\<close>, and the assignment
  \<open>dtSettings.oKeepConditions = this\<close> is the first statement that fails.
\<close>

datatype ctor_arg = ArgDataTable kc | ArgApi kc | ArgSettings kc | ArgOther bool

definition isDataTable :: "ctor_arg \<Rightarrow> bool" where
  "isDataTable a = (case a of ArgDataTable k \<Rightarrow> True | _ \<Rightarrow> False)"

definition truthy_arg :: "ctor_arg \<Rightarrow> bool" where
  "truthy_arg a = (case a of ArgOther t \<Rightarrow> t | _ \<Rightarrow> True)"

definition boolean_instanceof_Api :: "bool \<Rightarrow> bool" where
  "boolean_instanceof_Api b = False"

definition constructor_guard :: "ctor_arg \<Rightarrow> bool" where
  "constructor_guard a = (\<not> isDataTable a \<and> boolean_instanceof_Api (\<not> truthy_arg a))"

definition settings0 :: "ctor_arg \<Rightarrow> kc option" where
  "settings0 a =
     (case a of
        ArgDataTable k \<Rightarrow> Some k
      | ArgApi k \<Rightarrow> Some k
      | ArgSettings k \<Rightarrow> Some k
      | ArgOther t \<Rightarrow> None)"

definition KeepConditions_new :: "string \<Rightarrow> ctor_arg \<Rightarrow> error + kc" where
  "KeepConditions_new frag a =
     (if constructor_guard a
      then Inl (Error ''Failed to initialize KeepConditions plugin on non-datatable object'')
      else (case settings0 a of
              None \<Rightarrow> Inl (TypeError ''Cannot set property oKeepConditions of undefined'')
            | Some dtSettings \<Rightarrow>
                init frag (dtSettings\<lparr>keysToCons := keyMap, shouldDraw := False,
                                      enabledConditions := [],
                                      eventNamespace := ''keepConditions''\<rparr>)))"


section \<open>The run-length compression, as the specification words it\<close>

text \<open>
  The specification describes the value of the colorder condition by its result: the sequence
  is cut into maximal ascending or descending runs, a run of three or more indexes is written
  \<open>first-last\<close>, a shorter one as its indexes, and everything is joined by dots. The
  definitions of this section follow these words; the theorems below compare them with
  \<open>colorder_newHashVal\<close>, which follows the source. A run is a non-empty list in which each
  element is the previous one plus 1, or each the previous one minus 1; \<open>spec_runs\<close> reads
  the sequence from the left and extends the current run for as long as it stays a run.
\<close>

fun steps_by :: "int \<Rightarrow> int list \<Rightarrow> bool" where
  "steps_by d [] = True"
| "steps_by d [x] = True"
| "steps_by d (x # y # ys) = (y = x + d \<and> steps_by d (y # ys))"

definition is_run :: "int list \<Rightarrow> bool" where
  "is_run r = (r \<noteq> [] \<and> (steps_by 1 r \<or> steps_by (- 1) r))"

fun spec_runs_from :: "int list \<Rightarrow> int list \<Rightarrow> int list list" where
  "spec_runs_from cur [] = [cur]"
| "spec_runs_from cur (x # xs) =
     (if is_run (cur @ [x]) then spec_runs_from (cur @ [x]) xs else cur # spec_runs_from [x] xs)"

definition spec_runs :: "int list \<Rightarrow> int list list" where
  "spec_runs xs = (case xs of [] \<Rightarrow> [] | x # rest \<Rightarrow> spec_runs_from [x] rest)"

text \<open>How one run is written.\<close>

definition spec_render_run :: "int list \<Rightarrow> string" where
  "spec_render_run r =
     (if length r \<ge> 3 then show_int (hd r) @ ''-'' @ show_int (last r)
      else join ''.'' (map show_int r))"

definition spec_compress :: "int list \<Rightarrow> string" where
  "spec_compress xs = join ''.'' (map spec_render_run (spec_runs xs))"

fun maximal_runs :: "int list list \<Rightarrow> bool" where
  "maximal_runs (r1 # r2 # rs) = (\<not> is_run (r1 @ take 1 r2) \<and> maximal_runs (r2 # rs))"
| "maximal_runs rs = True"

text \<open>
  Devices of the proofs: the state of the loop of \<open>colorder.newHashVal\<close> that stands for a
  current run, the array that the loop's last statement joins, the items that a run
  contributes to the dot-separated value, and the decimal digits.
\<close>

definition state_of :: "int list \<Rightarrow> string list \<Rightarrow> jsnum option \<times> string list \<times> jsnum list" where
  "state_of cur res =
     (if length cur = 1 then (Some (Some (hd cur)), res @ [show_int (hd cur)], [])
      else (Some (Some (last cur)), res, map Some cur))"

definition finish :: "jsnum option \<times> string list \<times> jsnum list \<Rightarrow> string list" where
  "finish st = (case st of (prev, result, collection) \<Rightarrow>
      if length collection > 0 then result @ [compileColl collection] else result)"

definition items_of_run :: "int list \<Rightarrow> string list" where
  "items_of_run r =
     (if length r \<ge> 3 then [show_int (hd r) @ ''-'' @ show_int (last r)] else map show_int r)"

definition decs :: "char set" where
  "decs = {c. 48 \<le> (of_char c :: nat) \<and> (of_char c :: nat) \<le> 57}"

section \<open>A sample table\<close>

text \<open>
  A table with five sortable columns and the DataTables defaults (page length 10, ordered by
  the first column ascending), no extension, nothing enabled yet. The concrete evaluations
  below start from it.
\<close>

definition demo_table :: kc where
  "demo_table =
     \<lparr>oInit = \<lparr>keepConditions = KCTrue, searching = None, lengthChange = None, paging = None,
                pageLength = None\<rparr>,
      dtDefaults = \<lparr>bLengthChange = True, bPaginate = True, iDisplayLength = 10,
                     aaSorting = [(Some 0, Some ''asc'')]\<rparr>,
      aoColumns_bSortable = [True, True, True, True, True],
      oScroller_baseRowTop = None, has_colReorder = False, select_style = None, rowId = None,
      tableId = Some ''example'',
      dt_search = [], dt_page_len = Some 10, dt_page = Some 0,
      dt_columns_visible = [True, True, True, True, True],
      dt_order = [(Some 0, Some ''asc'')], dt_colReorder_order = None, dt_selected = [],
      dt_select_requests = [], dt_scrollTo = [], dt_draws = [], dt_listeners = [],
      keysToCons = keyMap, shouldDraw = False, enabledConditions = [],
      eventNamespace = ''keepConditions''\<rparr>"

section \<open>The round trip through the fragment\<close>








text \<open>
  The characters that structure the fragment: \<open>&\<close> between the tables, \<open>=\<close> between a
  table and its token, \<open>:\<close> between the entries of a token.
\<close>

definition safe :: "string \<Rightarrow> bool" where
  "safe v = (CHR '':'' \<notin> set v \<and> CHR ''&'' \<notin> set v \<and> CHR ''='' \<notin> set v)"














section \<open>Enabling, disabling, attaching: the controller's array of names\<close>

lemma inArray_from_absent: "x \<notin> set xs \<Longrightarrow> inArray_from x xs i = - 1"
  by (induction xs arbitrary: i) auto

lemma splice1_minus_one: "xs \<noteq> [] \<Longrightarrow> splice1 (- 1) xs = butlast xs"
  by (cases xs rule: rev_cases) (auto simp: splice1_def Let_def)

lemma conditions_by_name_length: "conditions_by_name n = Some c \<Longrightarrow> length n \<noteq> 1"
  by (auto simp: conditions_by_name_def conditions_all_def split: if_splits)

lemma jq_unique_length: "length (jq_unique xs) \<le> length xs"
  by (induction xs rule: jq_unique.induct) auto

lemma jq_unique_set: "set (jq_unique xs) = set xs"
  by (induction xs rule: jq_unique.induct) auto


text \<open>
  Claim C8. With no enabled condition \<open>getEnabledConditions\<close> returns \<open>false\<close>, and both
  \<open>attachEvents\<close> and \<open>detachEvents\<close> throw an \<open>Error\<close> instead of doing nothing.
\<close>

theorem attach_detach_throw_when_nothing_enabled:
  assumes "enabledConditions k = []"
  shows "getEnabledConditions k = None
       \<and> attachEvents k = Inl (Error ''No enabled conditions to attach to events'')
       \<and> detachEvents k = Inl (Error ''No enabled conditions to attach to events'')"
  using assms by (simp add: getEnabledConditions_def attachEvents_def detachEvents_def)

theorem attach_detach_throw_witness:
  "enabledConditions demo_table = []
   \<and> getEnabledConditions demo_table = None
   \<and> attachEvents demo_table = Inl (Error ''No enabled conditions to attach to events'')
   \<and> detachEvents demo_table = Inl (Error ''No enabled conditions to attach to events'')"
proof -
  have e: "enabledConditions demo_table = []" by (simp add: demo_table_def)
  from attach_detach_throw_when_nothing_enabled [OF e] e show ?thesis by simp
qed

text \<open>
  Claim C10, as stated, fails for a controller whose array of enabled names is empty:
  \<open>$.inArray\<close> gives \<open>-1\<close>, and \<open>splice(-1, 1)\<close> removes nothing from an empty array, so the
  array is unchanged.
\<close>

theorem disableCondition_empty_counterexample:
  "conditions_by_name ''search'' \<noteq> None
   \<and> Some ''search'' \<notin> set (enabledConditions demo_table)
   \<and> enabledConditions (fst (disableCondition [] demo_table (CondName ''search'') False))
       = enabledConditions demo_table"
  by (simp add: demo_table_def disableCondition_def disable_one_def resolve_name_def
      conditions_exists_def conditions_by_name_def conditions_all_def inArray_def splice1_def
      restructure_def)

text \<open>
  Claim C10, amended. When the array of enabled names is not empty and \<open>name\<close> is a condition
  of the registry that is not in it, \<open>disableCondition(name)\<close> removes the last element of
  the array, the condition enabled most recently: the array after the call is the array
  without its last element (passed once more through \<open>$.unique\<close> when the hash is
  restructured), in every case it differs from the array before, and the names left in it are
  those of the array without its last element, so that the last name is no longer enabled
  unless it stood in the array more than once.
\<close>

theorem disableCondition_absent_name_removes_last:
  assumes "conditions_by_name name \<noteq> None"
    and "Some name \<notin> set (enabledConditions k)"
    and "enabledConditions k \<noteq> []"
  shows "enabledConditions (fst (disableCondition frag k (CondName name) False))
           = butlast (enabledConditions k)
       \<and> enabledConditions (fst (disableCondition frag k (CondName name) True))
           = jq_unique (butlast (enabledConditions k))
       \<and> enabledConditions (fst (disableCondition frag k (CondName name) flag))
           \<noteq> enabledConditions k
       \<and> set (enabledConditions (fst (disableCondition frag k (CondName name) flag)))
           = set (butlast (enabledConditions k))"
proof -
  from assms(1) have len: "length name \<noteq> 1" using conditions_by_name_length by auto
  have d: "disable_one (k, False) name = (k\<lparr>enabledConditions := butlast (enabledConditions k)\<rparr>, True)"
    using assms len
    by (simp add: disable_one_def resolve_name_def conditions_exists_def inArray_def
        inArray_from_absent splice1_minus_one)
  have a: "enabledConditions (fst (disableCondition frag k (CondName name) False))
           = butlast (enabledConditions k)"
    by (simp add: disableCondition_def d restructure_def)
  have b: "enabledConditions (fst (disableCondition frag k (CondName name) True))
           = jq_unique (butlast (enabledConditions k))"
    by (simp add: disableCondition_def d restructure_def touch_enabled_def
        split: sum.splits prod.splits)
  have l1: "length (butlast (enabledConditions k)) < length (enabledConditions k)"
    using assms(3) by (simp add: less_Suc_eq_le)
  have l2: "length (jq_unique (butlast (enabledConditions k))) < length (enabledConditions k)"
    using jq_unique_length [of "butlast (enabledConditions k)"] l1 by linarith
  have c: "enabledConditions (fst (disableCondition frag k (CondName name) flag))
           \<noteq> enabledConditions k"
  proof (cases flag)
    case True
    have "length (enabledConditions (fst (disableCondition frag k (CondName name) True)))
            < length (enabledConditions k)"
      unfolding b by (rule l2)
    with True show ?thesis by auto
  next
    case False
    have "length (enabledConditions (fst (disableCondition frag k (CondName name) False)))
            < length (enabledConditions k)"
      unfolding a by (rule l1)
    with False show ?thesis by auto
  qed
  have e: "set (enabledConditions (fst (disableCondition frag k (CondName name) flag)))
           = set (butlast (enabledConditions k))"
  proof (cases flag)
    case True
    then show ?thesis by (simp only: b jq_unique_set)
  next
    case False
    then show ?thesis by (simp only: a)
  qed
  from a b c e show ?thesis by simp
qed

theorem disableCondition_absent_name_witness:
  "conditions_by_name ''search'' \<noteq> None
   \<and> Some ''search''
       \<notin> set (enabledConditions (demo_table\<lparr>enabledConditions := [Some ''page'', Some ''length'']\<rparr>))
   \<and> enabledConditions
        (fst (disableCondition []
               (demo_table\<lparr>enabledConditions := [Some ''page'', Some ''length'']\<rparr>)
               (CondName ''search'') False))
       = [Some ''page'']
   \<and> Some ''search''
       \<notin> set (enabledConditions (demo_table\<lparr>enabledConditions := [None, None, Some ''page'']\<rparr>))
   \<and> enabledConditions
        (fst (disableCondition []
               (demo_table\<lparr>enabledConditions := [None, None, Some ''page'']\<rparr>)
               (CondName ''search'') True))
       = [None, None]"
proof -
  let ?k = "demo_table\<lparr>enabledConditions := [Some ''page'', Some ''length'']\<rparr>"
  let ?f = "demo_table\<lparr>enabledConditions := [None, None, Some ''page'']\<rparr>"
  have 1: "conditions_by_name ''search'' \<noteq> None"
    by (simp add: conditions_by_name_def conditions_all_def)
  have 2: "Some ''search'' \<notin> set (enabledConditions ?k)" by simp
  have 3: "enabledConditions ?k \<noteq> []" by simp
  have 4: "Some ''search'' \<notin> set (enabledConditions ?f)" by simp
  have 5: "enabledConditions ?f \<noteq> []" by simp
  from disableCondition_absent_name_removes_last [OF 1 2 3, of "[]" False]
  have r1: "enabledConditions (fst (disableCondition [] ?k (CondName ''search'') False))
              = [Some ''page'']" by simp
  from disableCondition_absent_name_removes_last [OF 1 4 5, of "[]" True]
  have r2: "enabledConditions (fst (disableCondition [] ?f (CondName ''search'') True))
              = [None, None]" by (simp add: falsy_name_def)
  from 1 2 r1 4 r2 show ?thesis by blast
qed

section \<open>The registry and its keys\<close>

lemma keyMap_of_map_of_gen:
  "map_of (foldl (\<lambda>ret (name, con). AList.update (key con) name ret) acc cs) ky
     = (case map_of (rev (map (\<lambda>(n, c). (key c, n)) cs)) ky of
          None \<Rightarrow> map_of acc ky
        | Some v \<Rightarrow> Some v)"
  by (induction cs arbitrary: acc) (auto simp: update_conv' map_add_def split: option.splits)

text \<open>
  Claim C3, as stated, fails: the map from keys to names is built by plain assignment, and
  for two conditions with the same key the construction completes, the later name
  replacing the earlier one.
\<close>

theorem keyMap_of_duplicate_key_counterexample:
  "keyMap_of [(''search'', \<lparr>key = ''f'', event = EventName ''search.dt'', behaviour = CSearch\<rparr>),
              (''filter'', \<lparr>key = ''f'', event = EventName ''search.dt'', behaviour = CSearch\<rparr>)]
     = [(''f'', ''filter'')]"
  by (simp add: keyMap_of_def)

text \<open>
  Claim C3, amended. Building the map from keys to names checks nothing: for every registry
  it completes, and a key maps to the name of the last condition registered with it. The
  keys of the eight conditions of the plugin's registry are pairwise distinct.
\<close>

theorem keyMap_of_last_registration_wins:
  "map_of (keyMap_of conditions) ky = map_of (rev (map (\<lambda>(n, c). (key c, n)) conditions)) ky
   \<and> distinct (map (\<lambda>(n, c). key c) conditions_all)"
  by (simp add: keyMap_of_def keyMap_of_map_of_gen conditions_all_def split: option.splits)

section \<open>Entries of the token\<close>

lemma conditions_by_name_in_registry:
  "conditions_by_name n = Some con \<Longrightarrow> (n, con) \<in> set conditions_all"
  unfolding conditions_by_name_def by (rule map_of_SomeD)

lemma conditions_by_name_cases:
  assumes "conditions_by_name n = Some con"
  shows "key con = ''f'' \<and> behaviour con = CSearch \<or> key con = ''l'' \<and> behaviour con = CLength
       \<or> key con = ''p'' \<and> behaviour con = CPage \<or> key con = ''v'' \<and> behaviour con = CColvis
       \<or> key con = ''s'' \<and> behaviour con = CScroller \<or> key con = ''c'' \<and> behaviour con = CColorder
       \<or> key con = ''e'' \<and> behaviour con = CSelect \<or> key con = ''o'' \<and> behaviour con = COrder"
proof -
  have "(n, con) \<in> set conditions_all" using assms by (rule conditions_by_name_in_registry)
  then have "con \<in> snd ` set conditions_all" by force
  then show ?thesis
    unfolding conditions_all_def by (simp; elim disjE; simp)
qed

lemma conditions_by_name_simps:
  "conditions_by_name ''search''
     = Some \<lparr>key = ''f'', event = EventName ''search.dt'', behaviour = CSearch\<rparr>"
  "conditions_by_name ''length''
     = Some \<lparr>key = ''l'', event = EventName ''length.dt'', behaviour = CLength\<rparr>"
  "conditions_by_name ''page''
     = Some \<lparr>key = ''p'', event = EventName ''page.dt'', behaviour = CPage\<rparr>"
  "conditions_by_name ''colvis''
     = Some \<lparr>key = ''v'', event = EventName ''column-visibility.dt'', behaviour = CColvis\<rparr>"
  "conditions_by_name ''scroller''
     = Some \<lparr>key = ''s'', event = EventName ''draw.dt'', behaviour = CScroller\<rparr>"
  "conditions_by_name ''colorder''
     = Some \<lparr>key = ''c'', event = EventName ''column-reorder.dt'', behaviour = CColorder\<rparr>"
  "conditions_by_name ''select''
     = Some \<lparr>key = ''e'', event = EventList [''select'', ''deselect'', ''selectItems''],
             behaviour = CSelect\<rparr>"
  "conditions_by_name ''order''
     = Some \<lparr>key = ''o'', event = EventName ''order.dt'', behaviour = COrder\<rparr>"
  by (simp_all add: conditions_by_name_def conditions_all_def)

text \<open>Every entry that \<open>structureHash\<close> composes is the key of an enabled condition whose
  \<open>isset\<close> holds, followed by a value.\<close>

lemma tableHash_loop_entries:
  "tableHash_loop k cs acc = Inr r \<Longrightarrow> e \<in> set r \<Longrightarrow>
     e \<in> set acc \<or> (\<exists>n con v. Some n \<in> set cs \<and> conditions_by_name n = Some con
                         \<and> isset k (behaviour con) = Inr True \<and> e = key con @ v)"
proof (induction cs arbitrary: acc)
  case Nil
  then show ?case by simp
next
  case (Cons c cs)
  show ?case
  proof (cases c)
    case None
    with Cons.prems show ?thesis by simp
  next
    case (Some n)
    show ?thesis
    proof (cases "conditions_by_name n")
      case None
      with Some Cons.prems show ?thesis by simp
    next
      case con: (Some con)
      show ?thesis
      proof (cases "isset k (behaviour con)")
        case (Inl a)
        with Some con Cons.prems show ?thesis by simp
      next
        case (Inr b)
        show ?thesis
        proof (cases b)
          case False
          with Inr Some con Cons.prems have "tableHash_loop k cs acc = Inr r" by simp
          from Cons.IH [OF this Cons.prems(2)] show ?thesis by auto
        next
          case True
          show ?thesis
          proof (cases "newHashVal k (behaviour con)")
            case (Inl a)
            with True Inr Some con Cons.prems show ?thesis by simp
          next
            case nv: (Inr v)
            show ?thesis
            proof (cases v)
              case None
              with nv True Inr Some con Cons.prems have "tableHash_loop k cs acc = Inr r" by simp
              from Cons.IH [OF this Cons.prems(2)] show ?thesis by auto
            next
              case sv: (Some s)
              with nv True Inr Some con Cons.prems
              have "tableHash_loop k cs (acc @ [key con @ s]) = Inr r" by simp
              from Cons.IH [OF this Cons.prems(2)] show ?thesis
                using Some con Inr True by auto
            qed
          qed
        qed
      qed
    qed
  qed
qed

section \<open>Column visibility\<close>

lemma hidden_indexes_set: "set (hidden_indexes vs) = {i. i < length vs \<and> \<not> vs ! i}"
  by (auto simp: hidden_indexes_def)

lemma visible_indexes_set: "set (visible_indexes vs) = {i. i < length vs \<and> vs ! i}"
  by (auto simp: visible_indexes_def)

lemma colvis_single_visible:
  "i < 5 \<Longrightarrow> colvis_newHashVal ((replicate 5 False)[i := True]) = ''t'' @ show_nat i"
proof -
  assume "i < 5"
  then consider "i = 0" | "i = 1" | "i = 2" | "i = 3" | "i = 4" by linarith
  then show ?thesis
    by cases (simp_all, code_simp+)
qed

lemma colvis_entry:
  "False \<in> set vs \<Longrightarrow>
   tableHash_loop (k\<lparr>dt_columns_visible := vs\<rparr>) [Some ''colvis''] []
     = Inr [''v'' @ colvis_newHashVal vs]"
  by (simp add: conditions_by_name_simps isset_def newHashVal_def)

text \<open>
  Claim C4. When at least one column is hidden, the entry of the colvis condition is \<open>v\<close>
  followed by \<open>f\<close> and the hidden indexes, or by \<open>t\<close> and the visible indexes, and the list
  it carries is never the longer one. With five columns of which 0 and 1 are hidden the entry
  is \<open>vf0.1\<close>; with four of five hidden it is \<open>vt\<close> and the index of the visible column.
\<close>

theorem colvis_encodes_shorter_list:
  assumes "False \<in> set vs" and "i < 5"
  shows "tableHash_loop (k\<lparr>dt_columns_visible := vs\<rparr>) [Some ''colvis''] []
           = Inr [''v'' @ colvis_newHashVal vs]
       \<and> (colvis_newHashVal vs = ''f'' @ join ''.'' (map show_nat (hidden_indexes vs))
            \<and> length (hidden_indexes vs) \<le> length (visible_indexes vs)
          \<or> colvis_newHashVal vs = ''t'' @ join ''.'' (map show_nat (visible_indexes vs))
            \<and> length (visible_indexes vs) < length (hidden_indexes vs))
       \<and> set (hidden_indexes vs) = {c. c < length vs \<and> \<not> vs ! c}
       \<and> set (visible_indexes vs) = {c. c < length vs \<and> vs ! c}
       \<and> tableHash_loop (k\<lparr>dt_columns_visible := [False, False, True, True, True]\<rparr>)
            [Some ''colvis''] [] = Inr [''vf0.1'']
       \<and> tableHash_loop (k\<lparr>dt_columns_visible := (replicate 5 False)[i := True]\<rparr>)
            [Some ''colvis''] [] = Inr [''vt'' @ show_nat i]"
proof -
  have a: "tableHash_loop (k\<lparr>dt_columns_visible := vs\<rparr>) [Some ''colvis''] []
           = Inr [''v'' @ colvis_newHashVal vs]"
    using assms(1) by (rule colvis_entry)
  have b: "colvis_newHashVal vs = ''f'' @ join ''.'' (map show_nat (hidden_indexes vs))
            \<and> length (hidden_indexes vs) \<le> length (visible_indexes vs)
          \<or> colvis_newHashVal vs = ''t'' @ join ''.'' (map show_nat (visible_indexes vs))
            \<and> length (visible_indexes vs) < length (hidden_indexes vs)"
    by (simp add: colvis_newHashVal_def Let_def)
  have "colvis_newHashVal [False, False, True, True, True] = ''f0.1''" by code_simp
  then have c: "tableHash_loop (k\<lparr>dt_columns_visible := [False, False, True, True, True]\<rparr>)
            [Some ''colvis''] [] = Inr [''vf0.1'']"
    using colvis_entry [of "[False, False, True, True, True]" k] by simp
  have "False \<in> set ((replicate 5 False)[i := True])"
    using assms(2) by (auto simp: in_set_conv_nth intro!: exI [of _ "if i = 0 then 1 else 0"])
  then have d: "tableHash_loop (k\<lparr>dt_columns_visible := (replicate 5 False)[i := True]\<rparr>)
            [Some ''colvis''] [] = Inr [''vt'' @ show_nat i]"
    using colvis_entry [of "(replicate 5 False)[i := True]" k] colvis_single_visible [OF assms(2)]
    by simp
  from a b c d show ?thesis
    by (simp only: hidden_indexes_set visible_indexes_set simp_thms)
qed

theorem colvis_encodes_shorter_list_witness:
  "False \<in> set [True, False, False, False, True, False] \<and> (3::nat) < 5
   \<and> colvis_newHashVal [True, False, False, False, True, False] = ''t0.4''
   \<and> tableHash_loop (demo_table\<lparr>dt_columns_visible := (replicate 5 False)[3 := True]\<rparr>)
            [Some ''colvis''] [] = Inr [''vt3'']"
proof -
  have 1: "False \<in> set [True, False, False, False, True, False]" by simp
  have 2: "(3::nat) < 5" by simp
  have 3: "colvis_newHashVal [True, False, False, False, True, False] = ''t0.4''" by code_simp
  have 4: "show_nat 3 = ''3''" by code_simp
  from colvis_encodes_shorter_list [OF 1 2, of demo_table] 1 2 3 4 show ?thesis by simp
qed

section \<open>Default values leave no entry\<close>

lemma demo_table_no_entries:
  "tableHash_loop demo_table [Some ''search'', Some ''length'', Some ''page''] [] = Inr []"
  by (simp add: conditions_by_name_simps isset_def demo_table_def default_length_def
      truthy_num_def)

text \<open>
  Claim C6. On page 0, with the page length at its configured default and an empty search
  string, \<open>isset\<close> is false for page, length and search, and no entry that \<open>structureHash\<close>
  composes starts with \<open>p\<close>, \<open>l\<close> or \<open>f\<close>, whatever is enabled. With the default page
  length 10, a length of 10 gives no entry and a length of 25 gives the entry \<open>l25\<close>.
\<close>

theorem default_values_produce_no_entry:
  assumes "dt_page k = Some 0"
    and "dt_page_len k = Some (default_length k)"
    and "dt_search k = []"
    and "tableHash_loop k enabled [] = Inr tableHash"
    and "default_length k' = 10"
  shows "isset k CPage = Inr False \<and> isset k CLength = Inr False \<and> isset k CSearch = Inr False
       \<and> (\<forall>e \<in> set tableHash. charAt0 e \<noteq> ''p'' \<and> charAt0 e \<noteq> ''l'' \<and> charAt0 e \<noteq> ''f'')
       \<and> tableHash_loop (k'\<lparr>dt_page_len := Some 10\<rparr>) [Some ''length''] [] = Inr []
       \<and> tableHash_loop (k'\<lparr>dt_page_len := Some 25\<rparr>) [Some ''length''] [] = Inr [''l25'']"
proof -
  have p: "isset k CPage = Inr False" using assms(1) by (simp add: isset_def)
  have l: "isset k CLength = Inr False" using assms(2) by (simp add: isset_def)
  have f: "isset k CSearch = Inr False" using assms(3) by (simp add: isset_def)
  have e: "\<forall>e \<in> set tableHash. charAt0 e \<noteq> ''p'' \<and> charAt0 e \<noteq> ''l'' \<and> charAt0 e \<noteq> ''f''"
  proof
    fix e assume "e \<in> set tableHash"
    from tableHash_loop_entries [OF assms(4) this]
    obtain n con v where c: "conditions_by_name n = Some con"
      and s: "isset k (behaviour con) = Inr True" and e: "e = key con @ v" by auto
    from conditions_by_name_cases [OF c]
    show "charAt0 e \<noteq> ''p'' \<and> charAt0 e \<noteq> ''l'' \<and> charAt0 e \<noteq> ''f''"
      using s p l f by (elim disjE conjE) (simp_all add: charAt0_def e)
  qed
  have d: "default_length (k'\<lparr>dt_page_len := v\<rparr>) = 10" for v
    using assms(5) by (auto simp: default_length_def split: option.splits)
  have t10: "tableHash_loop (k'\<lparr>dt_page_len := Some 10\<rparr>) [Some ''length''] [] = Inr []"
    by (simp add: conditions_by_name_simps isset_def d)
  have "show_num (Some 25) = ''25''" by code_simp
  then have t25: "tableHash_loop (k'\<lparr>dt_page_len := Some 25\<rparr>) [Some ''length''] [] = Inr [''l25'']"
    by (simp add: conditions_by_name_simps isset_def newHashVal_def d truthy_num_def)
  from p l f e t10 t25 show ?thesis by simp
qed

theorem default_values_produce_no_entry_witness:
  "dt_page demo_table = Some 0 \<and> dt_page_len demo_table = Some (default_length demo_table)
   \<and> dt_search demo_table = []
   \<and> tableHash_loop demo_table [Some ''search'', Some ''length'', Some ''page''] [] = Inr []
   \<and> default_length demo_table = 10
   \<and> isset demo_table CPage = Inr False \<and> isset demo_table CLength = Inr False
   \<and> isset demo_table CSearch = Inr False
   \<and> tableHash_loop (demo_table\<lparr>dt_page_len := Some 25\<rparr>) [Some ''length''] [] = Inr [''l25'']"
proof -
  have 1: "dt_page demo_table = Some 0" by (simp add: demo_table_def)
  have 5: "default_length demo_table = 10" by (simp add: demo_table_def default_length_def)
  have 2: "dt_page_len demo_table = Some (default_length demo_table)"
    unfolding 5 by (simp add: demo_table_def)
  have 3: "dt_search demo_table = []" by (simp add: demo_table_def)
  note 4 = demo_table_no_entries
  from default_values_produce_no_entry [OF 1 2 3 4 5] 1 2 3 4 5 show ?thesis by simp
qed

section \<open>The fragment that structureHash writes\<close>

lemma queryString_empty: "queryString [] = [([], QUndef)]"
  by (simp add: queryString_def location_hash_def substring1_def queryString_step_def qval_of_def)

lemma queryString_underscore: "queryString ''_'' = [(''_'', QUndef)]"
  by (simp add: queryString_def location_hash_def substring1_def queryString_step_def qval_of_def)

lemma join_contains:
  "xs \<noteq> [] \<Longrightarrow> \<forall>x \<in> set xs. c \<in> set x \<Longrightarrow> c \<in> set (join sep xs)"
  by (induction sep xs rule: join.induct) auto

lemma urlHash_of_contains_eq: "x \<in> set (urlHash_of hash) \<Longrightarrow> CHR ''='' \<in> set x"
  by (auto simp: urlHash_of_def)

lemma set_location_hash_nonempty: "CHR ''='' \<in> set v \<Longrightarrow> set_location_hash v \<noteq> []"
  by (cases v) (auto simp: set_location_hash_def)

text \<open>
  Claim C7, as stated, fails for a call with \<open>retrieve === true\<close>: nothing is composed, the
  call returns the empty string, not the placeholder, and writes nothing.
\<close>

theorem structureHash_retrieve_empty_counterexample:
  "structureHash []
     (demo_table\<lparr>enabledConditions := [Some ''search'', Some ''length'', Some ''page'']\<rparr>) True
     = Inr (Some [], [])"
  by (simp add: structureHash_def getEnabledConditions_def falsy_name_def conditions_by_name_simps
       isset_def demo_table_def default_length_def truthy_num_def queryString_empty
       other_tables_step_def qval_falsy_def tableID_key_def urlHash_of_def hval_length_def)

text \<open>
  Claim C7, amended. A call that writes the fragment (\<open>retrieve\<close> not \<open>true\<close>) assigns
  \<open>newHash || '_'\<close>, where \<open>newHash\<close> is the string that the same call would return with
  \<open>retrieve === true\<close>: the fragment written is never empty, and it is the placeholder \<open>_\<close>
  when nothing is composed.
\<close>

theorem structureHash_writes_placeholder:
  assumes "structureHash frag k True = Inr (Some newHash, frag1)"
  shows "structureHash frag k False
           = Inr (None, set_location_hash (if newHash = [] then ''_'' else newHash))
       \<and> set_location_hash (if newHash = [] then ''_'' else newHash) \<noteq> []
       \<and> (newHash = [] \<longrightarrow> structureHash frag k False = Inr (None, ''_''))"
proof -
  let ?h = "\<lambda>tableHash. join ''&'' (urlHash_of (AList.update (tableID_key (tableId k))
           (HStr (join '':'' tableHash))
           (foldl (other_tables_step (tableId k)) [] (queryString frag))))"
  obtain conditions where c: "getEnabledConditions k = Some conditions"
    using assms by (cases "getEnabledConditions k") (simp_all add: structureHash_def)
  obtain tableHash where t: "tableHash_loop k conditions [] = Inr tableHash"
    using assms c by (cases "tableHash_loop k conditions []") (simp_all add: structureHash_def)
  have n: "newHash = ?h tableHash"
    using assms c t by (auto simp: structureHash_def Let_def)
  have w: "structureHash frag k False
           = Inr (None, set_location_hash (if newHash = [] then ''_'' else newHash))"
    using c t n by (simp add: structureHash_def Let_def)
  have ne: "set_location_hash (if newHash = [] then ''_'' else newHash) \<noteq> []"
  proof (cases "newHash = []")
    case True
    then show ?thesis by (simp add: set_location_hash_def)
  next
    case False
    let ?u = "urlHash_of (AList.update (tableID_key (tableId k)) (HStr (join '':'' tableHash))
           (foldl (other_tables_step (tableId k)) [] (queryString frag)))"
    have "?u \<noteq> []"
    proof
      assume "?u = []"
      then have "?h tableHash = []" by simp
      with n False show False by simp
    qed
    moreover have "\<forall>x \<in> set ?u. CHR ''='' \<in> set x"
      using urlHash_of_contains_eq by blast
    ultimately have "CHR ''='' \<in> set (join ''&'' ?u)" by (rule join_contains)
    then have "CHR ''='' \<in> set newHash" unfolding n .
    with False show ?thesis by (simp add: set_location_hash_nonempty)
  qed
  have "set_location_hash ''_'' = ''_''" by (simp add: set_location_hash_def)
  with w ne show ?thesis by simp
qed

theorem structureHash_writes_placeholder_witness:
  "structureHash ''_''
     (demo_table\<lparr>enabledConditions := [Some ''search'', Some ''length'', Some ''page'']\<rparr>) True
     = Inr (Some [], ''_'')
   \<and> structureHash ''_''
     (demo_table\<lparr>enabledConditions := [Some ''search'', Some ''length'', Some ''page'']\<rparr>) False
     = Inr (None, ''_'')"
proof -
  let ?k = "demo_table\<lparr>enabledConditions := [Some ''search'', Some ''length'', Some ''page'']\<rparr>"
  have 1: "structureHash ''_'' ?k True = Inr (Some [], ''_'')"
    by (simp add: structureHash_def getEnabledConditions_def falsy_name_def
       conditions_by_name_simps isset_def demo_table_def default_length_def truthy_num_def
       queryString_underscore other_tables_step_def qval_falsy_def tableID_key_def
       urlHash_of_def hval_length_def cons_or_empty_def)
  from structureHash_writes_placeholder [OF 1] 1 show ?thesis
    by (simp add: set_location_hash_def)
qed

lemma show_num_3: "show_num (Some 3) = ''3''"
  by code_simp

lemma queryString_token_with_equals:
  "queryString ''other=ex=1&example=p2'' = [(''other'', QStr ''ex''), (''example'', QStr ''p2'')]"
  by (simp add: queryString_def location_hash_def substring1_def queryString_step_def qval_of_def)

lemma queryString_repeated_table:
  "queryString ''other=p1&other=l25&example=p2''
     = [(''other'', QArr [Some ''p1'', Some ''l25'']), (''example'', QStr ''p2'')]"
  by (simp add: queryString_def location_hash_def substring1_def queryString_step_def qval_of_def)

text \<open>
  Claim C2. The fragment holds the token \<open>ex=1\<close> of the table \<open>other\<close> and a token of the
  table \<open>example\<close>, whose controller writes its new token \<open>p3\<close>. The other table's token
  comes out as \<open>ex\<close>: \<open>queryString\<close> splits each entry at every \<open>=\<close> and keeps the second
  piece only. In the same way two entries \<open>other=p1\<close> and \<open>other=l25\<close> come out as the
  single entry \<open>other=p1,l25\<close>.
\<close>

theorem structureHash_alters_other_table_token:
  "structureHash ''other=ex=1&example=p2''
     (demo_table\<lparr>enabledConditions := [Some ''page''], dt_page := Some 3\<rparr>) False
     = Inr (None, ''other=ex&example=p3'')
   \<and> structureHash ''other=p1&other=l25&example=p2''
     (demo_table\<lparr>enabledConditions := [Some ''page''], dt_page := Some 3\<rparr>) False
     = Inr (None, ''other=p1,l25&example=p3'')"
proof -
  let ?k = "demo_table\<lparr>enabledConditions := [Some ''page''], dt_page := Some 3\<rparr>"
  have en: "getEnabledConditions ?k = Some [Some ''page'']"
    by (simp add: getEnabledConditions_def falsy_name_def)
  have id: "tableId ?k = Some ''example''" by (simp add: demo_table_def)
  have 1: "structureHash ''other=ex=1&example=p2'' ?k False = Inr (None, ''other=ex&example=p3'')"
    by (simp add: structureHash_def Let_def en id queryString_token_with_equals
        conditions_by_name_simps isset_def newHashVal_def show_num_3 other_tables_step_def
        qval_falsy_def tableID_key_def urlHash_of_def hval_length_def hval_string_def
        cons_or_empty_def set_location_hash_def)
  have 2: "structureHash ''other=p1&other=l25&example=p2'' ?k False
             = Inr (None, ''other=p1,l25&example=p3'')"
    by (simp add: structureHash_def Let_def en id queryString_repeated_table
        conditions_by_name_simps isset_def newHashVal_def show_num_3 other_tables_step_def
        qval_falsy_def tableID_key_def urlHash_of_def hval_length_def hval_string_def
        cons_or_empty_def set_location_hash_def)
  from 1 2 show ?thesis by simp
qed

section \<open>What the constructor accepts\<close>

lemma collectEnabled_demo_table:
  "collectEnabled demo_table
     = Inr (demo_table\<lparr>enabledConditions :=
              [Some ''search'', Some ''length'', Some ''page'', Some ''colvis'', Some ''order'']\<rparr>)"
  by (simp add: collectEnabled_def conditions_all_def isEnabled_def conditions_by_name_simps
      isInit_def enable_one_def resolve_name_def conditions_exists_def demo_table_def Let_def)

lemma attachEvents_demo_table:
  "attachEvents (demo_table\<lparr>enabledConditions :=
              [Some ''search'', Some ''length'', Some ''page'', Some ''colvis'', Some ''order'']\<rparr>)
     = Inr (demo_table\<lparr>enabledConditions :=
              [Some ''search'', Some ''length'', Some ''page'', Some ''colvis'', Some ''order''],
            dt_listeners :=
              [''search.dt.keepConditions'', ''length.dt.keepConditions'',
               ''page.dt.keepConditions'', ''column-visibility.dt.keepConditions'',
               ''order.dt.keepConditions'']\<rparr>)"
  by (simp add: attachEvents_def getEnabledConditions_def falsy_name_def conditions_array_def
      conditions_by_name_simps touch_enabled_def demo_table_def)

lemma processHash_empty_fragment: "tableId k \<noteq> Some [] \<Longrightarrow> processHash [] k = Inr k"
  by (simp add: processHash_def queryString_empty processHash_table_def)

text \<open>
  Claim C9, as stated, fails for the settings object of a table. It is neither a DataTable
  (\<open>isDataTable\<close> is false of it) nor an instance of the API nor a selector, and it is what
  the plugin's own \<open>init.dt\<close> handler passes, \<open>new KeepConditions( dtSettings )\<close>. The
  constructor does not throw: the controller is built, five conditions are enabled and their
  listeners attached.
\<close>

theorem constructor_accepts_settings_object_counterexample:
  "isDataTable (ArgSettings demo_table) = False
   \<and> KeepConditions_new [] (ArgSettings demo_table)
       = Inr (demo_table\<lparr>enabledConditions :=
                [Some ''search'', Some ''length'', Some ''page'', Some ''colvis'', Some ''order''],
              dt_listeners :=
                [''search.dt.keepConditions'', ''length.dt.keepConditions'',
                 ''page.dt.keepConditions'', ''column-visibility.dt.keepConditions'',
                 ''order.dt.keepConditions'']\<rparr>)"
proof -
  have s: "demo_table\<lparr>keysToCons := keyMap, shouldDraw := False, enabledConditions := [],
                       eventNamespace := ''keepConditions''\<rparr> = demo_table"
    by (simp add: demo_table_def)
  have w: "wants_attach (keepConditions (oInit (demo_table\<lparr>enabledConditions :=
              [Some ''search'', Some ''length'', Some ''page'', Some ''colvis'', Some ''order'']\<rparr>)))"
    by (simp add: wants_attach_def demo_table_def)
  have p: "processHash [] (demo_table\<lparr>enabledConditions :=
              [Some ''search'', Some ''length'', Some ''page'', Some ''colvis'', Some ''order''],
            dt_listeners :=
              [''search.dt.keepConditions'', ''length.dt.keepConditions'',
               ''page.dt.keepConditions'', ''column-visibility.dt.keepConditions'',
               ''order.dt.keepConditions'']\<rparr>)
      = Inr (demo_table\<lparr>enabledConditions :=
              [Some ''search'', Some ''length'', Some ''page'', Some ''colvis'', Some ''order''],
            dt_listeners :=
              [''search.dt.keepConditions'', ''length.dt.keepConditions'',
               ''page.dt.keepConditions'', ''column-visibility.dt.keepConditions'',
               ''order.dt.keepConditions'']\<rparr>)"
    by (rule processHash_empty_fragment) (simp add: demo_table_def)
  have i: "isDataTable (ArgSettings demo_table) = False" by (simp add: isDataTable_def)
  have "KeepConditions_new [] (ArgSettings demo_table)
       = Inr (demo_table\<lparr>enabledConditions :=
                [Some ''search'', Some ''length'', Some ''page'', Some ''colvis'', Some ''order''],
              dt_listeners :=
                [''search.dt.keepConditions'', ''length.dt.keepConditions'',
                 ''page.dt.keepConditions'', ''column-visibility.dt.keepConditions'',
                 ''order.dt.keepConditions'']\<rparr>)"
    by (simp only: KeepConditions_new_def constructor_guard_def boolean_instanceof_Api_def
        settings0_def ctor_arg.case s init_def collectEnabled_demo_table w attachEvents_demo_table
        p sum.case option.case if_True if_False simp_thms)
  with i show ?thesis by blast
qed

text \<open>
  Claim C9, amended. The guard is false for every argument, so its error is never thrown.
  For every argument from which the API obtains no settings, that is anything but a DataTable
  (an instance or a selector of one), an instance of the API bound to a table, or the settings
  object of a table, the constructor throws at once, before \<open>_init\<close> runs: a \<open>TypeError\<close>
  at \<open>dtSettings.oKeepConditions = this\<close>. For the settings object of a table, as for the
  other two handles, it goes on to \<open>_init\<close> with the controller's fields set.
\<close>

theorem constructor_throws_without_settings:
  "constructor_guard a = False
   \<and> KeepConditions_new frag (ArgOther t)
       = Inl (TypeError ''Cannot set property oKeepConditions of undefined'')
   \<and> KeepConditions_new frag (ArgSettings k)
       = init frag (k\<lparr>keysToCons := keyMap, shouldDraw := False, enabledConditions := [],
                       eventNamespace := ''keepConditions''\<rparr>)
   \<and> KeepConditions_new frag (ArgDataTable k) = KeepConditions_new frag (ArgSettings k)
   \<and> KeepConditions_new frag (ArgApi k) = KeepConditions_new frag (ArgSettings k)"
  by (simp add: constructor_guard_def boolean_instanceof_Api_def KeepConditions_new_def
      settings0_def)


section \<open>Column order: compression and expansion\<close>

lemma steps_by_append:
  "steps_by d (cur @ [x]) = (steps_by d cur \<and> (cur = [] \<or> x = last cur + d))"
  by (induction d cur rule: steps_by.induct) auto

lemma length_ge2_snoc:
  assumes "length cur \<ge> 2"
  obtains bs l where "cur = bs @ [l]" and "bs \<noteq> []"
proof -
  from assms have "cur \<noteq> []" by auto
  then obtain bs l where c: "cur = bs @ [l]" by (cases cur rule: rev_cases) auto
  with assms have "bs \<noteq> []" by auto
  with c that show ?thesis by blast
qed

lemma steps_by_last2:
  assumes "steps_by d cur" and "length cur \<ge> 2"
  shows "last cur = last (butlast cur) + d"
proof -
  from assms(2) obtain bs l where c: "cur = bs @ [l]" and ne: "bs \<noteq> []"
    by (rule length_ge2_snoc)
  with assms(1) show ?thesis by (simp add: steps_by_append)
qed

lemma compileColl_render:
  "length cur \<ge> 2 \<Longrightarrow> compileColl (map Some cur) = spec_render_run cur"
proof (cases cur)
  case Nil
  then show ?thesis if "length cur \<ge> 2" using that by simp
next
  case (Cons a as)
  assume l: "length cur \<ge> 2"
  show ?thesis
  proof (cases as)
    case Nil
    with Cons l show ?thesis by simp
  next
    case c2: (Cons b bs)
    show ?thesis
    proof (cases bs)
      case Nil
      with Cons c2 show ?thesis by (simp add: spec_render_run_def show_num_def)
    next
      case c3: (Cons c cs)
      with Cons c2 show ?thesis by (simp add: spec_render_run_def show_num_def last_map)
    qed
  qed
qed

lemma lastInCol_1: "cur \<noteq> [] \<Longrightarrow> lastInCol (map Some cur) 1 = Some (last cur)"
  by (simp add: lastInCol_def last_conv_nth Suc_leI)

lemma lastInCol_2:
  assumes "length cur \<ge> 2"
  shows "lastInCol (map Some cur) 2 = Some (last (butlast cur))"
proof -
  from assms obtain bs l where c: "cur = bs @ [l]" and ne: "bs \<noteq> []"
    by (rule length_ge2_snoc)
  have "length bs - Suc 0 < length bs" using ne by simp
  then show ?thesis
    using assms ne unfolding c
    by (simp add: lastInCol_def last_conv_nth nth_append)
qed

lemma step_single:
  "colorder_step (state_of [p] res) (Some x) =
     (if is_run ([p] @ [x]) then state_of ([p] @ [x]) res
      else state_of [x] (res @ [spec_render_run [p]]))"
  by (auto simp: state_of_def is_run_def js_eq_def js_plus_def spec_render_run_def show_num_def)

lemma step_run:
  assumes "length cur \<ge> 2" and "is_run cur"
  shows "colorder_step (state_of cur res) (Some x) =
     (if is_run (cur @ [x]) then state_of (cur @ [x]) res
      else state_of [x] (res @ [spec_render_run cur]))"
proof -
  from assms have ne: "cur \<noteq> []" by auto
  let ?l = "last cur" and ?p = "last (butlast cur)"
  have st: "state_of cur res = (Some (Some ?l), res, map Some cur)"
    using assms(1) by (simp add: state_of_def)
  have run_iff: "is_run (cur @ [x]) \<longleftrightarrow>
      (?l > ?p \<and> x = ?l + 1) \<or> (?p > ?l \<and> x = ?l - 1)"
  proof -
    from assms(2) consider "steps_by 1 cur" | "steps_by (- 1) cur" by (auto simp: is_run_def)
    then show ?thesis
    proof cases
      case 1
      from steps_by_last2 [OF 1 assms(1)] have "?l = ?p + 1" .
      moreover have "\<not> steps_by (- 1) cur"
        using steps_by_last2 [of "- 1" cur] assms(1) calculation by auto
      ultimately show ?thesis using 1 ne by (auto simp: is_run_def steps_by_append)
    next
      case 2
      from steps_by_last2 [OF 2 assms(1)] have "?l = ?p + - 1" .
      moreover have "\<not> steps_by 1 cur"
        using steps_by_last2 [of 1 cur] assms(1) calculation by auto
      ultimately show ?thesis using 2 ne by (auto simp: is_run_def steps_by_append)
    qed
  qed
  have len: "length (cur @ [x]) \<noteq> 1" using ne by simp
  have l1: "lastInCol (map Some cur) (Suc 0) = Some ?l" using lastInCol_1 [OF ne] by simp
  have l2: "lastInCol (map Some cur) 2 = Some ?p" using assms(1) by (rule lastInCol_2)
  have cc: "compileColl (map Some cur) = spec_render_run cur" using assms(1) by (rule compileColl_render)
  have s1: "state_of (cur @ [x]) res = (Some (Some x), res, map Some cur @ [Some x])"
    using len by (simp add: state_of_def)
  have s2: "state_of [x] (res @ [spec_render_run cur])
              = (Some (Some x), res @ [spec_render_run cur, show_num (Some x)], [])"
    by (simp add: state_of_def show_num_def)
  show ?thesis
    unfolding st s1 s2 run_iff using ne
    by (simp add: l1 l2 cc js_gt_def js_eq_def js_plus_def del: compileColl.simps)
qed

lemma loop_runs:
  "is_run cur \<Longrightarrow>
   finish (foldl colorder_step (state_of cur res) (map Some xs))
     = res @ map spec_render_run (spec_runs_from cur xs)"
proof (induction xs arbitrary: cur res)
  case Nil
  show ?case
  proof (cases "length cur = 1")
    case True
    then obtain p where "cur = [p]" by (cases cur) auto
    then show ?thesis by (simp add: state_of_def finish_def spec_render_run_def)
  next
    case False
    with Nil have l: "length cur \<ge> 2" by (cases cur) (auto simp: is_run_def Suc_le_eq)
    have ne: "cur \<noteq> []" using l by (cases cur) simp_all
    show ?thesis
      using False ne compileColl_render [OF l]
      by (simp add: state_of_def finish_def del: compileColl.simps)
  qed
next
  case (Cons x xs)
  have step: "colorder_step (state_of cur res) (Some x) =
     (if is_run (cur @ [x]) then state_of (cur @ [x]) res
      else state_of [x] (res @ [spec_render_run cur]))"
  proof (cases "length cur = 1")
    case True
    then obtain p where "cur = [p]" by (cases cur) auto
    then show ?thesis using step_single [of p res x] by simp
  next
    case False
    with Cons.prems have "length cur \<ge> 2" by (cases cur) (auto simp: is_run_def Suc_le_eq)
    then show ?thesis using Cons.prems by (rule step_run)
  qed
  have single: "is_run [x]" by (simp add: is_run_def)
  show ?case
    using Cons.IH [of "cur @ [x]" res] Cons.IH [OF single, of "res @ [spec_render_run cur]"] step
    by simp
qed

lemma colorder_newHashVal_finish:
  "colorder_newHashVal s = join ''.'' (finish (foldl colorder_step (None, [], []) s))"
  by (simp add: colorder_newHashVal_def finish_def split: prod.splits)

lemma colorder_newHashVal_spec:
  "colorder_newHashVal (map Some xs) = spec_compress xs"
proof (cases xs)
  case Nil
  then show ?thesis by (simp add: colorder_newHashVal_finish finish_def spec_compress_def spec_runs_def)
next
  case (Cons x rest)
  have first: "colorder_step (None, [], []) (Some x) = state_of [x] []"
    by (simp add: state_of_def show_num_def)
  have "finish (foldl colorder_step (state_of [x] []) (map Some rest))
          = map spec_render_run (spec_runs_from [x] rest)"
    using loop_runs [of "[x]" "[]" rest] by (simp add: is_run_def)
  then show ?thesis
    using Cons first
    by (simp add: colorder_newHashVal_finish spec_compress_def spec_runs_def)
qed


lemma digit_char_dec: "d < 10 \<Longrightarrow> digit_char d \<in> decs"
  by (simp add: digit_char_def decs_def)

lemma digit_char_val: "d < 10 \<Longrightarrow> digit_val (digit_char d) = Some d"
  by (simp add: digit_char_def digit_val_def)

lemma show_nat_decs: "set (show_nat n) \<subseteq> decs"
proof (induction n rule: show_nat.induct)
  case (1 n)
  show ?case
  proof (cases "n < 10")
    case True
    then show ?thesis by (subst show_nat.simps) (simp add: digit_char_dec)
  next
    case False
    then show ?thesis
      using 1 by (subst show_nat.simps) (simp add: digit_char_dec)
  qed
qed

lemma show_nat_nonempty: "show_nat n \<noteq> []"
  by (subst show_nat.simps) simp

lemma digits_value_snoc:
  "digits_value r (ds @ [c]) = digits_value r ds * r + (case digit_val c of None \<Rightarrow> 0 | Some d \<Rightarrow> d)"
  by (simp add: digits_value_def)

lemma digits_value_show_nat: "digits_value 10 (show_nat n) = n"
proof (induction n rule: show_nat.induct)
  case (1 n)
  show ?case
  proof (cases "n < 10")
    case True
    then show ?thesis
      by (subst show_nat.simps) (simp add: digits_value_def digit_char_val)
  next
    case False
    then show ?thesis
      using 1 by (subst show_nat.simps) (simp add: digits_value_snoc digit_char_val)
  qed
qed

lemma decs_not_special:
  assumes "c \<in> decs"
  shows "\<not> is_ws c" "c \<noteq> CHR ''-''" "c \<noteq> CHR ''+''" "c \<noteq> CHR ''.''" "c \<noteq> CHR ''x''"
    "c \<noteq> CHR ''X''" "c \<noteq> CHR '':''" "c \<noteq> CHR ''&''" "c \<noteq> CHR ''=''" "is_digit_of 10 c"
  using assms by (auto simp: decs_def is_ws_def is_digit_of_def digit_val_def)

lemma parseInt_decs:
  assumes "s \<noteq> []" and "set s \<subseteq> decs"
  shows "parseInt s = Some (int (digits_value 10 s))"
proof -
  from assms obtain c r where s: "s = c # r" by (cases s) auto
  with assms have c: "c \<in> decs" and r: "set r \<subseteq> decs" by auto
  have nohex: "\<not> has_prefix ''0x'' s" "\<not> has_prefix ''0X'' s"
    using r decs_not_special(5,6) unfolding s by (cases r; auto)+
  have tw: "takeWhile (is_digit_of 10) s = s"
    using assms(2) decs_not_special(10) by (auto simp: takeWhile_eq_all_conv)
  have dw: "dropWhile is_ws s = s"
    using c decs_not_special(1) unfolding s by simp
  have neg: "(case s of [] \<Rightarrow> False | c # r \<Rightarrow> c = CHR ''-'') = False"
    using decs_not_special(2) [OF c] by (simp add: s)
  have s2: "(case s of [] \<Rightarrow> [] | c # r \<Rightarrow> if c = CHR ''-'' \<or> c = CHR ''+'' then r else s) = s"
    using decs_not_special(2,3) [OF c] by (simp add: s)
  have radix: "(has_prefix ''0x'' s \<or> has_prefix ''0X'' s) = False"
    using nohex by simp
  show ?thesis
    unfolding parseInt_def Let_def dw neg s2 radix if_False tw
    using assms(1) by simp
qed

lemma parseInt_show_nat: "parseInt (show_nat n) = Some (int n)"
  using parseInt_decs [OF show_nat_nonempty show_nat_decs] by (simp add: digits_value_show_nat)

lemma parseInt_show_int: "0 \<le> a \<Longrightarrow> parseInt (show_int a) = Some a"
  by (simp add: show_int_def parseInt_show_nat)

lemma show_int_decs: "0 \<le> a \<Longrightarrow> set (show_int a) \<subseteq> decs"
  by (simp add: show_int_def show_nat_decs)

lemma split_on_absent: "c \<notin> set s \<Longrightarrow> split_on c s = [s]"
  by (induction s) auto

lemma split_on_append:
  "c \<notin> set a \<Longrightarrow> split_on c (a @ c # b) = a # split_on c b"
  by (induction a) auto

lemma split_on_join:
  "xs \<noteq> [] \<Longrightarrow> \<forall>x \<in> set xs. c \<notin> set x \<Longrightarrow> split_on c (join [c] xs) = xs"
proof (induction "[c]" xs rule: join.induct)
  case 1
  then show ?case by simp
next
  case (2 x)
  then show ?case by (simp add: split_on_absent)
next
  case (3 x y ys)
  then show ?case by (simp add: split_on_append)
qed


lemma runs_from_concat: "concat (spec_runs_from cur xs) = cur @ xs"
  by (induction xs arbitrary: cur) auto

lemma runs_from_is_run: "is_run cur \<Longrightarrow> r \<in> set (spec_runs_from cur xs) \<Longrightarrow> is_run r"
proof (induction xs arbitrary: cur)
  case Nil
  then show ?case by simp
next
  case (Cons x xs)
  have "is_run [x]" by (simp add: is_run_def)
  with Cons show ?case by (auto split: if_splits)
qed

lemma runs_concat: "concat (spec_runs xs) = xs"
  by (cases xs) (simp_all add: spec_runs_def runs_from_concat)

lemma runs_is_run: "r \<in> set (spec_runs xs) \<Longrightarrow> is_run r"
  by (cases xs) (auto simp: spec_runs_def is_run_def dest!: runs_from_is_run [rotated])

lemma runs_nonempty: "xs \<noteq> [] \<Longrightarrow> spec_runs xs \<noteq> []"
proof -
  have "spec_runs_from cur ys \<noteq> []" for cur ys by (induction ys arbitrary: cur) auto
  then show "xs \<noteq> [] \<Longrightarrow> spec_runs xs \<noteq> []" by (cases xs) (simp_all add: spec_runs_def)
qed

lemma steps_up_upto: "steps_by 1 (x # r) \<Longrightarrow> x # r = [x..x + int (length r)]"
proof (induction r arbitrary: x)
  case Nil
  then show ?case by simp
next
  case (Cons y ys)
  then have y: "y = x + 1" and s: "steps_by 1 (y # ys)" by auto
  from Cons.IH [OF s] have "y # ys = [x + 1..x + 1 + int (length ys)]" by (simp add: y)
  moreover have "[x..x + int (length (y # ys))] = x # [x + 1..x + 1 + int (length ys)]"
    by (subst upto_rec1) (simp_all add: algebra_simps)
  ultimately show ?case by simp
qed

lemma steps_down_upto: "steps_by (- 1) (x # r) \<Longrightarrow> x # r = rev [x - int (length r)..x]"
proof (induction r arbitrary: x)
  case Nil
  then show ?case by simp
next
  case (Cons y ys)
  then have y: "y = x - 1" and s: "steps_by (- 1) (y # ys)" by auto
  from Cons.IH [OF s] have "y # ys = rev [x - 1 - int (length ys)..x - 1]" by (simp add: y)
  moreover have "[x - int (length (y # ys))..x] = [x - 1 - int (length ys)..x - 1] @ [x]"
    by (subst upto_rec2) (simp_all add: algebra_simps)
  ultimately show ?case by simp
qed

lemma split_dash_pair:
  assumes "0 \<le> a" and "0 \<le> b"
  shows "split_on CHR ''-'' (show_int a @ CHR ''-'' # show_int b) = [show_int a, show_int b]"
proof -
  have na: "CHR ''-'' \<notin> set (show_int a)" and nb: "CHR ''-'' \<notin> set (show_int b)"
    using show_int_decs [OF assms(1)] show_int_decs [OF assms(2)] decs_not_special(2) by blast+
  show ?thesis using split_on_append [OF na, of "show_int b"] split_on_absent [OF nb] by simp
qed

lemma expand_item_range:
  assumes "0 \<le> a" and "0 \<le> b"
  shows "expand_item (show_int a @ CHR ''-'' # show_int b)
           = (if a > b then map Some (rev [b..a]) else map Some [a..b])"
  using assms by (simp add: expand_item_def split_dash_pair parseInt_show_int)

lemma expand_item_single: "0 \<le> a \<Longrightarrow> expand_item (show_int a) = [Some a]"
  using show_int_decs [of a] decs_not_special(2)
  by (auto simp: expand_item_def parseInt_show_int)

lemma render_run_items: "spec_render_run r = join ''.'' (items_of_run r)"
  by (simp add: spec_render_run_def items_of_run_def)

lemma items_of_run_nonempty: "r \<noteq> [] \<Longrightarrow> items_of_run r \<noteq> []"
  by (simp add: items_of_run_def)

lemma items_of_run_no_dot:
  assumes "\<forall>x \<in> set r. 0 \<le> x" and "r \<noteq> []" and "i \<in> set (items_of_run r)"
  shows "CHR ''.'' \<notin> set i"
proof -
  have d: "CHR ''.'' \<notin> set (show_int x)" if "0 \<le> x" for x
    using show_int_decs [OF that] decs_not_special(4) by blast
  have "0 \<le> hd r" "0 \<le> last r" using assms(1,2) by auto
  with assms d show ?thesis by (auto simp: items_of_run_def split: if_splits)
qed

lemma expand_items_of_run:
  assumes "is_run r" and "\<forall>x \<in> set r. 0 \<le> x"
  shows "concat (map expand_item (items_of_run r)) = map Some r"
proof (cases "length r \<ge> 3")
  case False
  have "concat (map expand_item (map show_int r)) = map Some r"
    using assms(2) by (induction r) (simp_all add: expand_item_single)
  with False show ?thesis by (simp add: items_of_run_def)
next
  case True
  then obtain x r' where r: "r = x # r'" and l: "length r' \<ge> 2" by (cases r) auto
  have pos: "0 \<le> hd r" "0 \<le> last r" using assms(2) r by auto
  from assms(1) consider "steps_by 1 r" | "steps_by (- 1) r" by (auto simp: is_run_def)
  then have "(if hd r > last r then map Some (rev [last r..hd r]) else map Some [hd r..last r])
               = map Some r"
  proof cases
    case 1
    then have e: "x # r' = [x..x + int (length r')]" unfolding r by (rule steps_up_upto)
    have h: "hd r = x" by (simp add: r)
    have "last (x # r') = x + int (length r')"
      by (subst e, subst upto_rec2) simp_all
    then have la: "last r = x + int (length r')" by (simp add: r)
    have "\<not> hd r > last r" unfolding h la by simp
    moreover have "[hd r..last r] = r" unfolding h la using e r by simp
    ultimately show ?thesis by simp
  next
    case 2
    then have e: "x # r' = rev [x - int (length r')..x]" unfolding r by (rule steps_down_upto)
    have h: "hd r = x" by (simp add: r)
    have "last (x # r') = x - int (length r')"
      by (subst e) (simp add: last_rev upto_rec1)
    then have la: "last r = x - int (length r')" by (simp add: r)
    have "0 < int (length r')" using l by (cases r') simp_all
    then have "hd r > last r" unfolding h la by simp
    moreover have "rev [last r..hd r] = r" unfolding h la using e r by simp
    ultimately show ?thesis by simp
  qed
  with True pos show ?thesis by (simp add: items_of_run_def expand_item_range)
qed

lemma join_append:
  "xs \<noteq> [] \<Longrightarrow> ys \<noteq> [] \<Longrightarrow> join sep (xs @ ys) = join sep xs @ sep @ join sep ys"
  by (induction sep xs rule: join.induct) (auto simp: neq_Nil_conv)

lemma join_join:
  "\<forall>xs \<in> set xss. xs \<noteq> [] \<Longrightarrow> join sep (map (join sep) xss) = join sep (concat xss)"
proof (induction xss)
  case Nil
  then show ?case by simp
next
  case (Cons xs xss)
  show ?case
  proof (cases xss)
    case Nil
    then show ?thesis by simp
  next
    case (Cons ys yss)
    with Cons.prems have "concat xss \<noteq> []" by auto
    with Cons.prems Cons.IH Cons show ?thesis by (simp add: join_append)
  qed
qed

lemma concat_map_concat_map:
  "concat (map f (concat (map g rs))) = concat (map (\<lambda>r. concat (map f (g r))) rs)"
  by (induction rs) simp_all

lemma hashColOrder_spec_compress:
  assumes "xs \<noteq> []" and "\<forall>x \<in> set xs. 0 \<le> x"
  shows "hashColOrder (spec_compress xs) = map Some xs"
proof -
  let ?rs = "spec_runs xs"
  let ?items = "concat (map items_of_run ?rs)"
  have run: "is_run r" if "r \<in> set ?rs" for r using that by (rule runs_is_run)
  have sub: "set r \<subseteq> set xs" if "r \<in> set ?rs" for r
    using that runs_concat [of xs] by (metis UN_I set_concat subsetI)
  have pos: "\<forall>x \<in> set r. 0 \<le> x" if "r \<in> set ?rs" for r
    using sub [OF that] assms(2) by auto
  have ne: "r \<noteq> []" if "r \<in> set ?rs" for r using run [OF that] by (simp add: is_run_def)
  have "spec_compress xs = join ''.'' (map (\<lambda>r. join ''.'' (items_of_run r)) ?rs)"
    by (simp add: spec_compress_def render_run_items [abs_def])
  also have "\<dots> = join ''.'' (map (join ''.'') (map items_of_run ?rs))" by (simp add: comp_def)
  also have "\<dots> = join ''.'' ?items"
    by (rule join_join) (auto simp: items_of_run_nonempty ne)
  finally have sc: "spec_compress xs = join ''.'' ?items" .
  have ine: "?items \<noteq> []"
    using runs_nonempty [OF assms(1)] ne items_of_run_nonempty by (cases ?rs) auto
  have nodot: "\<forall>i \<in> set ?items. CHR ''.'' \<notin> set i"
  proof
    fix i assume "i \<in> set ?items"
    then obtain r where m: "r \<in> set ?rs" and i: "i \<in> set (items_of_run r)" by auto
    from items_of_run_no_dot [OF pos [OF m] ne [OF m] i] show "CHR ''.'' \<notin> set i" .
  qed
  have "split_on CHR ''.'' (join ''.'' ?items) = ?items"
    using split_on_join [OF ine nodot] by simp
  then have "hashColOrder (spec_compress xs) = concat (map expand_item ?items)"
    by (simp add: hashColOrder_def sc)
  also have "\<dots> = concat (map (\<lambda>r. concat (map expand_item (items_of_run r))) ?rs)"
    by (rule concat_map_concat_map)
  also have "\<dots> = concat (map (map Some) ?rs)"
    using expand_items_of_run run pos by (auto intro!: arg_cong [where f = concat])
  also have "\<dots> = map Some (concat ?rs)" by (simp add: map_concat)
  finally show ?thesis by (simp add: runs_concat)
qed


lemma runs_from_head: "\<exists>e rest. spec_runs_from cur xs = (cur @ e) # rest"
proof (induction xs arbitrary: cur)
  case Nil
  then show ?case by simp
next
  case (Cons x xs)
  show ?case
  proof (cases "is_run (cur @ [x])")
    case True
    from Cons [of "cur @ [x]"] obtain e rest where "spec_runs_from (cur @ [x]) xs = ((cur @ [x]) @ e) # rest"
      by blast
    with True show ?thesis by simp
  next
    case False
    then show ?thesis by simp
  qed
qed

lemma runs_from_maximal: "maximal_runs (spec_runs_from cur xs)"
proof (induction xs arbitrary: cur)
  case Nil
  then show ?case by simp
next
  case (Cons x xs)
  show ?case
  proof (cases "is_run (cur @ [x])")
    case True
    with Cons show ?thesis by simp
  next
    case False
    from runs_from_head [of "[x]" xs] obtain e rest where h: "spec_runs_from [x] xs = ([x] @ e) # rest"
      by blast
    have "maximal_runs (spec_runs_from [x] xs)" by (rule Cons)
    with False h show ?thesis by simp
  qed
qed

lemma runs_maximal: "maximal_runs (spec_runs xs)"
  by (cases xs) (simp_all add: spec_runs_def runs_from_maximal)

text \<open>
  Claim C5, as stated, fails in its example: \<open>8, 6, 5\<close> is no run, so
  \<open>[9,1,2,3,4,8,6,5,0]\<close> is compressed to \<open>9.1-4.8.6.5.0\<close>, and \<open>9.1-4.8-5.0\<close> expands to
  a sequence with a \<open>7\<close> in it. It also fails for the empty sequence, whose value is the
  empty string, which expands to the one-element sequence \<open>[NaN]\<close>.
\<close>

theorem colorder_example_counterexample:
  "colorder_newHashVal (map Some [9, 1, 2, 3, 4, 8, 6, 5, 0]) = ''9.1-4.8.6.5.0''
   \<and> hashColOrder ''9.1-4.8-5.0'' = map Some [9, 1, 2, 3, 4, 8, 7, 6, 5, 0]
   \<and> hashColOrder (colorder_newHashVal (map Some [])) = [None]"
  by code_simp

text \<open>
  Claim C5, amended. For every non-empty sequence of distinct non-negative column indexes,
  the value that \<open>colorder.newHashVal\<close> computes is the one the specification describes: the
  sequence cut into its maximal ascending or descending runs, a run of three or more written
  \<open>first-last\<close>, a run of two \<open>first.last\<close>, all joined by dots; and \<open>colorder.onLoad\<close>
  expands that value to the sequence again. In particular \<open>[9,1,2,3,4,8,7,6,5,0]\<close> is
  compressed to \<open>9.1-4.8-5.0\<close>, which expands to \<open>[9,1,2,3,4,8,7,6,5,0]\<close>.
\<close>

theorem colorder_compression_inverts:
  assumes "xs \<noteq> []" and "\<forall>x \<in> set xs. 0 \<le> x" and "distinct xs"
  shows "colorder_newHashVal (map Some xs) = join ''.'' (map spec_render_run (spec_runs xs))
       \<and> concat (spec_runs xs) = xs
       \<and> (\<forall>r \<in> set (spec_runs xs). is_run r)
       \<and> maximal_runs (spec_runs xs)
       \<and> hashColOrder (colorder_newHashVal (map Some xs)) = map Some xs
       \<and> colorder_newHashVal (map Some [9, 1, 2, 3, 4, 8, 7, 6, 5, 0]) = ''9.1-4.8-5.0''
       \<and> hashColOrder ''9.1-4.8-5.0'' = map Some [9, 1, 2, 3, 4, 8, 7, 6, 5, 0]"
proof -
  have a: "colorder_newHashVal (map Some xs) = join ''.'' (map spec_render_run (spec_runs xs))"
    by (simp add: colorder_newHashVal_spec spec_compress_def)
  have b: "hashColOrder (colorder_newHashVal (map Some xs)) = map Some xs"
    using hashColOrder_spec_compress [OF assms(1,2)] by (simp add: colorder_newHashVal_spec)
  have c: "colorder_newHashVal (map Some [9, 1, 2, 3, 4, 8, 7, 6, 5, 0]) = ''9.1-4.8-5.0''"
    by code_simp
  have d: "hashColOrder ''9.1-4.8-5.0'' = map Some [9, 1, 2, 3, 4, 8, 7, 6, 5, 0]"
    by code_simp
  from a b c d show ?thesis
    using runs_concat [of xs] runs_is_run [of _ xs] runs_maximal [of xs] by blast
qed

theorem colorder_compression_inverts_witness:
  "[3, 2, 1, 0, 4 :: int] \<noteq> [] \<and> distinct [3, 2, 1, 0, 4 :: int]
   \<and> colorder_newHashVal (map Some [3, 2, 1, 0, 4]) = ''3-0.4''
   \<and> hashColOrder (colorder_newHashVal (map Some [3, 2, 1, 0, 4])) = map Some [3, 2, 1, 0, 4]"
proof -
  have 1: "[3, 2, 1, 0, 4 :: int] \<noteq> []" by simp
  have 2: "\<forall>x \<in> set [3, 2, 1, 0, 4 :: int]. 0 \<le> x" by simp
  have 3: "distinct [3, 2, 1, 0, 4 :: int]" by simp
  have 4: "colorder_newHashVal (map Some [3, 2, 1, 0, 4]) = ''3-0.4''" by code_simp
  from colorder_compression_inverts [OF 1 2 3]
  have 5: "hashColOrder (colorder_newHashVal (map Some [3, 2, 1, 0, 4])) = map Some [3, 2, 1, 0, 4]"
    by blast
  from 1 3 4 5 show ?thesis by blast
qed


section \<open>Writing the token and reading it back\<close>









text \<open>
  The value of every entry is free of the characters that structure the fragment: the
  escaped search string, the numbers, and the ids that are plain.
\<close>

lemma safe_append [simp]: "safe (a @ b) = (safe a \<and> safe b)"
  by (auto simp: safe_def)

lemma safe_Nil [simp]: "safe []"
  by (simp add: safe_def)
























































































end
